theory Spec2Isabelle
  imports Complex_Main "HOL-Library.Word"
begin

section \<open>go-paulstretch: the stream adapter of paulstretch.go\<close>

text \<open>
  The package wraps the C engine libpaulstretch in a pipe: \<open>Write\<close> cuts a byte stream
  into windows and submits them, \<open>Read\<close> hands the engine's output windows out in
  chunks, \<open>Close\<close> ends the stream. One goroutine writes, one reads, any may close.

  The embedding has two layers. The lower layer holds the struct and, for every piece of
  a method that runs without giving up control, one function on the struct. The upper
  layer is a transition system over the struct, the program points of the writer and of
  the reader, and a history of what crossed the engine's and the callers' boundary.
\<close>

subsection \<open>Data\<close>

type_synonym byte = "8 word"

text \<open>A \<open>float32\<close> sample is its 32-bit pattern; the code never computes with samples.\<close>

type_synonym sample = "32 word"

text \<open>
  The engine hands its output back as a C pointer (\<open>float **samples\<close>). A pointer is the
  memory behind it, read by byte offset; how much of it is read is the caller's choice.
\<close>

type_synonym cptr = "nat \<Rightarrow> byte"

datatype error = EOF

datatype panic =
  IndexOutOfRange | SliceBounds | MakeSliceLen | SendOnClosedChannel | CloseOfClosedChannel

text \<open>
  The struct \<open>Paulstretch\<close> (lines 35-44). \<open>ps\<close> is the engine behind the handle.
  The channel \<open>writePermit\<close> of capacity 1 carries no data: it is the number of tokens it
  buffers and whether it has been closed. The offsets are Go \<open>int\<close>s that start at a
  length and only grow by lengths, so they are naturals. The wait queue of \<open>rwCond\<close> is
  the program point of the reader (below), the only goroutine that ever waits on it.
\<close>

record 'e Paulstretch =
  ps :: 'e
  writeBuf :: "byte list"
  writeOff :: nat
  readBuf :: "byte list"
  readOff :: nat
  closed :: bool
  writePermit :: nat
  permitClosed :: bool

text \<open>
  The three entry points of libpaulstretch that the package calls (\<open>paulstretch_destroy\<close>
  runs in a finalizer, after the last use). Their code is not part of the repository, so
  the engine is a parameter: any state type, any three functions.
\<close>

record 'e engine =
  paulstretch_create :: "real \<Rightarrow> nat \<Rightarrow> 'e"
  paulstretch_write :: "'e \<Rightarrow> byte list \<Rightarrow> 'e"
  paulstretch_read :: "'e \<Rightarrow> 'e \<times> cptr option"

subsection \<open>Go primitives\<close>

text \<open>A Go \<open>int\<close> is 64 bits wide here; arithmetic wraps.\<close>

definition go_int :: "int \<Rightarrow> int" where
  "go_int x = (x + 2 ^ 63) mod 2 ^ 64 - 2 ^ 63"

text \<open>The conversion \<open>C.size_t(windowSize)\<close>.\<close>

definition size_t :: "int \<Rightarrow> nat" where
  "size_t x = nat (x mod 2 ^ 64)"

text \<open>
  \<open>copy(dst[off:], src)\<close> for \<open>off \<le> len(dst)\<close>: the first \<open>min (len(dst) - off) (len(src))\<close>
  elements of \<open>src\<close> overwrite \<open>dst\<close> from \<open>off\<close> on; the rest of \<open>dst\<close> stays.
\<close>

definition copy_at :: "'a list \<Rightarrow> nat \<Rightarrow> 'a list \<Rightarrow> 'a list" where
  "copy_at dst off src = take off dst @ take (length dst - off) src @ drop (off + length src) dst"

text \<open>
  \<open>copy(data, src)\<close> into the caller's destination slice: the destination is given by its
  length, the result is the bytes now at its front (their number is what \<open>copy\<close> returns).
\<close>

definition copy_out :: "nat \<Rightarrow> 'a list \<Rightarrow> 'a list" where
  "copy_out dlen src = take (min dlen (length src)) src"

text \<open>The slice of \<open>n\<close> bytes that a \<open>reflect.SliceHeader\<close> lays over a C pointer.\<close>

definition bytes_at :: "cptr \<Rightarrow> nat \<Rightarrow> byte list" where
  "bytes_at p n = map p [0..<n]"

text \<open>The bytes of a sample slice, reinterpreted in place (little-endian machine).\<close>

definition sample_bytes :: "sample \<Rightarrow> byte list" where
  "sample_bytes w = [ucast w, ucast (drop_bit 8 w), ucast (drop_bit 16 w), ucast (drop_bit 24 w)]"

definition samples_bytes :: "sample list \<Rightarrow> byte list" where
  "samples_bytes ss = concat (map sample_bytes ss)"

subsection \<open>NewPaulstretch (lines 57-73)\<close>

text \<open>
  \<open>make\<close> panics on a negative length. The handle returned by the engine is stored as it
  comes. The finalizer is not modelled.
\<close>

definition NewPaulstretch :: "'e engine \<Rightarrow> real \<Rightarrow> int \<Rightarrow> panic + 'e Paulstretch" where
  "NewPaulstretch E stretchFactor windowSize =
     (let h = paulstretch_create E stretchFactor (size_t windowSize);
          n = go_int (windowSize * 4)
      in if n < 0 then Inl MakeSliceLen
         else Inr \<lparr> ps = h,
                    writeBuf = replicate (nat n) 0,
                    writeOff = 0,
                    readBuf = replicate (nat n) 0,
                    readOff = nat n,
                    closed = False,
                    writePermit = 1,
                    permitClosed = False \<rparr>)"

subsection \<open>Write, piece by piece (lines 92-132)\<close>

text \<open>
  The head of the loop up to the channel receive (lines 97-114), and the code after the
  loop (lines 126-131). \<open>W_Submit buf data c\<close>: a window starts at \<open>buf[0]\<close>, \<open>data\<close> is
  what remains of the argument, \<open>c\<close> is what the window takes from it.
  \<open>&buf[0]\<close> panics on an empty \<open>buf\<close>; \<open>buf[p.writeOff:]\<close> panics when the offset
  exceeds the length.
\<close>

datatype whead = W_Submit "byte list" "byte list" nat | W_Finish nat | W_Fault panic

definition write_head :: "'e Paulstretch \<Rightarrow> byte list \<Rightarrow> nat \<Rightarrow> 'e Paulstretch \<times> whead" where
  "write_head p data n =
     (if writeOff p + length data \<ge> length (writeBuf p) then
        (if writeOff p = 0 then
           (if data = [] then (p, W_Fault IndexOutOfRange)
            else (p, W_Submit data (drop (length (writeBuf p)) data) (length (writeBuf p))))
         else if length (writeBuf p) < writeOff p then (p, W_Fault SliceBounds)
         else
           (let c = length (writeBuf p) - writeOff p;
                buf = copy_at (writeBuf p) (writeOff p) data
            in (p\<lparr>writeBuf := buf, writeOff := 0\<rparr>, W_Submit buf (drop c data) c)))
      else if length data > 0 then
        (p\<lparr>writeBuf := copy_at (writeBuf p) (writeOff p) data,
           writeOff := writeOff p + length data\<rparr>, W_Finish (n + length data))
      else (p, W_Finish n))"

text \<open>
  The receive \<open><-p.writePermit\<close> (line 115): it takes a buffered token, or returns at
  once on a closed channel, or blocks (\<open>None\<close>).
\<close>

definition recv_permit :: "'e Paulstretch \<Rightarrow> 'e Paulstretch option" where
  "recv_permit p =
     (if writePermit p > 0 then Some (p\<lparr>writePermit := writePermit p - 1\<rparr>)
      else if permitClosed p then Some p
      else None)"

text \<open>
  The critical section of the writer (lines 116-123). The engine reads one window, as
  many bytes as \<open>writeBuf\<close> is long, from \<open>&samples[0]\<close>, which panics when \<open>buf\<close> holds
  less than one sample. \<open>W_Cont w\<close>: the window \<open>w\<close> went to the engine and \<open>Signal\<close> was
  called.
\<close>

datatype wcrit = W_Abort | W_Cont "byte list" | W_CritFault panic

definition write_crit :: "'e engine \<Rightarrow> 'e Paulstretch \<Rightarrow> byte list \<Rightarrow> 'e Paulstretch \<times> wcrit" where
  "write_crit E p buf =
     (if closed p then (p, W_Abort)
      else if length buf div 4 = 0 then (p, W_CritFault IndexOutOfRange)
      else (let w = take (length (writeBuf p)) buf
            in (p\<lparr>ps := paulstretch_write E (ps p) w\<rparr>, W_Cont w)))"

subsection \<open>Read, piece by piece (lines 153-191)\<close>

text \<open>Lines 154-161: the staged rest of a window, or nothing for an empty destination.\<close>

definition read_fast :: "'e Paulstretch \<Rightarrow> nat \<Rightarrow> ('e Paulstretch \<times> byte list) option" where
  "read_fast p dlen =
     (if readOff p < length (readBuf p) then
        (let bs = copy_out dlen (drop (readOff p) (readBuf p))
         in Some (p\<lparr>readOff := readOff p + length bs\<rparr>, bs))
      else if dlen = 0 then Some (p, [])
      else None)"

text \<open>
  One pass under the lock (lines 164-190): a call of \<open>paulstretch_read\<close>, then either the
  copy out of the window (\<open>R_Got window bytes\<close>), or end of stream, or the non-blocking
  send of a permit followed by \<open>Wait\<close> (\<open>R_Block\<close>). A send on a closed channel panics.
\<close>

datatype rcrit = R_Got "byte list" "byte list" | R_Eof | R_Block | R_Fault panic

definition read_crit :: "'e engine \<Rightarrow> 'e Paulstretch \<Rightarrow> nat \<Rightarrow> 'e Paulstretch \<times> rcrit" where
  "read_crit E p dlen =
     (case paulstretch_read E (ps p) of
        (e, Some outSamples) \<Rightarrow>
          (let out = bytes_at outSamples (length (readBuf p));
               bs = copy_out dlen out;
               n = length bs;
               p1 = p\<lparr>ps := e\<rparr>
           in if n < length (readBuf p)
              then (p1\<lparr>readBuf := copy_at (readBuf p) n (drop n out), readOff := n\<rparr>, R_Got out bs)
              else (p1, R_Got out bs))
      | (e, None) \<Rightarrow>
          (if closed p then (p\<lparr>ps := e\<rparr>, R_Eof)
           else if permitClosed p then (p\<lparr>ps := e\<rparr>, R_Fault SendOnClosedChannel)
           else if writePermit p < 1 then (p\<lparr>ps := e, writePermit := writePermit p + 1\<rparr>, R_Block)
           else (p\<lparr>ps := e\<rparr>, R_Block)))"

subsection \<open>Close (lines 77-86)\<close>

text \<open>
  The new struct, whether \<open>Signal\<close> was called, and the error returned. \<open>close\<close> of a
  channel that is closed already panics.
\<close>

definition Close :: "'e Paulstretch \<Rightarrow> panic + 'e Paulstretch \<times> bool \<times> error option" where
  "Close p =
     (if \<not> closed p then
        (if permitClosed p then Inl CloseOfClosedChannel
         else Inr (p\<lparr>closed := True, permitClosed := True\<rparr>, True, None))
      else Inr (p, False, None))"

subsection \<open>The goroutines\<close>

text \<open>
  A step of a goroutine runs from one point where it may have to wait to the next: the
  receive on \<open>writePermit\<close>, \<open>Lock\<close>, and \<open>Wait\<close>. The mutex \<open>rwCond.L\<close> is not a field of
  the state: the code between \<open>Lock\<close> and \<open>Unlock\<close> (or \<open>Wait\<close>, which unlocks) is one step,
  so the mutex is free between steps. The code outside the lock touches only what its own
  goroutine owns (\<open>writeBuf\<close> and \<open>writeOff\<close> for the writer, \<open>readBuf\<close> and \<open>readOff\<close> for
  the reader), the unlocked read of \<open>closed\<close> at line 93, and the channel, whose operations
  are atomic; it is merged into the adjacent step. \<open>sync.Cond\<close> has no spurious wake-ups:
  only \<open>Signal\<close> moves a goroutine out of the wait queue.

  Where the writer stands: outside a call, blocked in the receive of line 115, holding a
  permit before \<open>Lock\<close> of line 116, or returned with a count and an error. The frame
  \<open>buf data n c\<close> holds the locals of \<open>Write\<close>.
\<close>

datatype wthread =
    W_Idle
  | W_Permit "byte list" "byte list" nat nat
  | W_Lock "byte list" "byte list" nat nat
  | W_Ret nat "error option"

text \<open>
  Where the reader stands: outside a call, in the wait queue of \<open>rwCond\<close> (line 175),
  signalled and about to take the lock again, or returned with the bytes copied into the
  destination and an error. The number is the length of the destination.
\<close>

datatype rthread =
    R_Idle
  | R_Wait nat
  | R_Woken nat
  | R_Ret "byte list" "error option"

text \<open>
  The system: the struct, the two goroutines, a panic if one happened, and the history.
  The history is written and never read by the code: \<open>submitted\<close> are the windows passed
  to \<open>paulstretch_write\<close>, \<open>emitted\<close> the windows obtained from \<open>paulstretch_read\<close>,
  \<open>fed\<close> the arguments of all \<open>Write\<close> calls in a row, \<open>accepted\<close> the sum of the counts
  they returned, \<open>delivered\<close> the bytes all \<open>Read\<close> calls returned, in a row. About the
  \<open>Write\<close> call in progress or last returned: \<open>w_arg\<close> is its argument, \<open>w_sub0\<close> the
  number of windows submitted and \<open>w_off0\<close> the value of \<open>writeOff\<close> when it began.
  About the \<open>Read\<close> call in progress or last returned: \<open>r_dlen\<close> is the length of its
  destination, \<open>r_emit0\<close> the number of windows emitted and \<open>r_off0\<close> the value of
  \<open>readOff\<close> when it began.
  \<open>w_samples\<close> and \<open>r_samples\<close> say whether the call came through the sample wrapper.
\<close>

record 'e sys =
  obj :: "'e Paulstretch"
  wthr :: wthread
  rthr :: rthread
  panicked :: "panic option"
  submitted :: "byte list list"
  emitted :: "byte list list"
  fed :: "byte list"
  accepted :: nat
  delivered :: "byte list"
  w_arg :: "byte list"
  w_sub0 :: nat
  w_off0 :: nat
  r_dlen :: nat
  r_emit0 :: nat
  r_off0 :: nat
  w_samples :: bool
  r_samples :: bool

definition start :: "'e Paulstretch \<Rightarrow> 'e sys" where
  "start p = \<lparr> obj = p, wthr = W_Idle, rthr = R_Idle, panicked = None,
               submitted = [], emitted = [], fed = [], accepted = 0, delivered = [],
               w_arg = [], w_sub0 = 0, w_off0 = 0, r_dlen = 0, r_emit0 = 0, r_off0 = 0,
               w_samples = False, r_samples = False \<rparr>"

text \<open>\<open>p.rwCond.Signal()\<close>: wakes the goroutine in the wait queue, if there is one.\<close>

definition Signal :: "'e sys \<Rightarrow> 'e sys" where
  "Signal s = (case rthr s of R_Wait d \<Rightarrow> s\<lparr>rthr := R_Woken d\<rparr> | _ \<Rightarrow> s)"

text \<open>The writer from the head of the loop to its next stop.\<close>

definition writer_loop :: "byte list \<Rightarrow> nat \<Rightarrow> 'e sys \<Rightarrow> 'e sys" where
  "writer_loop data n s =
     (case write_head (obj s) data n of
        (p, W_Submit buf rest c) \<Rightarrow> s\<lparr>obj := p, wthr := W_Permit buf rest n c\<rparr>
      | (p, W_Finish m) \<Rightarrow> s\<lparr>obj := p, wthr := W_Ret m None, accepted := accepted s + m\<rparr>
      | (p, W_Fault x) \<Rightarrow> s\<lparr>panicked := Some x\<rparr>)"

text \<open>Entry of \<open>Write\<close> (lines 93-96).\<close>

definition writer_call :: "byte list \<Rightarrow> 'e sys \<Rightarrow> 'e sys" where
  "writer_call data s =
     (let s1 = s\<lparr>fed := fed s @ data, w_arg := data,
                 w_sub0 := length (submitted s), w_off0 := writeOff (obj s)\<rparr>
      in if closed (obj s) then s1\<lparr>wthr := W_Ret 0 (Some EOF)\<rparr>
         else writer_loop data 0 s1)"

text \<open>The writer's next step from where it stands; \<open>None\<close> when it cannot move.\<close>

definition writer_step :: "'e engine \<Rightarrow> 'e sys \<Rightarrow> 'e sys option" where
  "writer_step E s =
     (case wthr s of
        W_Permit buf rest n c \<Rightarrow>
          (case recv_permit (obj s) of
             None \<Rightarrow> None
           | Some p \<Rightarrow> Some (s\<lparr>obj := p, wthr := W_Lock buf rest n c\<rparr>))
      | W_Lock buf rest n c \<Rightarrow>
          (case write_crit E (obj s) buf of
             (p, W_Abort) \<Rightarrow> Some (s\<lparr>wthr := W_Ret n (Some EOF), accepted := accepted s + n\<rparr>)
           | (p, W_Cont w) \<Rightarrow>
               Some (writer_loop rest (n + c)
                       (Signal (s\<lparr>obj := p, submitted := submitted s @ [w]\<rparr>)))
           | (p, W_CritFault x) \<Rightarrow> Some (s\<lparr>panicked := Some x\<rparr>))
      | _ \<Rightarrow> None)"

text \<open>The reader under the lock, from \<open>paulstretch_read\<close> to its next stop.\<close>

definition reader_fetch :: "'e engine \<Rightarrow> nat \<Rightarrow> 'e sys \<Rightarrow> 'e sys" where
  "reader_fetch E dlen s =
     (case read_crit E (obj s) dlen of
        (p, R_Got out bs) \<Rightarrow>
          s\<lparr>obj := p, rthr := R_Ret bs None,
            emitted := emitted s @ [out], delivered := delivered s @ bs\<rparr>
      | (p, R_Eof) \<Rightarrow> s\<lparr>obj := p, rthr := R_Ret [] (Some EOF)\<rparr>
      | (p, R_Block) \<Rightarrow> s\<lparr>obj := p, rthr := R_Wait dlen\<rparr>
      | (p, R_Fault x) \<Rightarrow> s\<lparr>panicked := Some x\<rparr>)"

text \<open>Entry of \<open>Read\<close> with a destination of \<open>dlen\<close> bytes.\<close>

definition reader_call :: "'e engine \<Rightarrow> nat \<Rightarrow> 'e sys \<Rightarrow> 'e sys" where
  "reader_call E dlen s =
     (let s1 = s\<lparr>r_dlen := dlen, r_emit0 := length (emitted s), r_off0 := readOff (obj s)\<rparr>
      in case read_fast (obj s) dlen of
           Some (p, bs) \<Rightarrow> s1\<lparr>obj := p, rthr := R_Ret bs None, delivered := delivered s @ bs\<rparr>
         | None \<Rightarrow> reader_fetch E dlen s1)"

definition reader_step :: "'e engine \<Rightarrow> 'e sys \<Rightarrow> 'e sys option" where
  "reader_step E s =
     (case rthr s of
        R_Woken dlen \<Rightarrow> Some (reader_fetch E dlen s)
      | _ \<Rightarrow> None)"

definition close_call :: "'e sys \<Rightarrow> 'e sys" where
  "close_call s =
     (case Close (obj s) of
        Inl x \<Rightarrow> s\<lparr>panicked := Some x\<rparr>
      | Inr (p, signalled, err) \<Rightarrow>
          (if signalled then Signal (s\<lparr>obj := p\<rparr>) else s\<lparr>obj := p\<rparr>))"

text \<open>
  What the callers and the scheduler can do. A call starts only on a goroutine that is
  outside a call (one writer, one reader); \<open>Close\<close> may come at any time. The sample
  wrappers (lines 138-147 and 197-206) take \<open>&samples[0]\<close> first, which panics on an
  empty slice, and pass four bytes per sample on.
\<close>

datatype event =
    WriteCall "byte list"
  | WriteSamplesCall "sample list"
  | WriterStep
  | ReadCall nat
  | ReadSamplesCall nat
  | ReaderStep
  | CloseCall

definition writer_free :: "'e sys \<Rightarrow> bool" where
  "writer_free s = (case wthr s of W_Idle \<Rightarrow> True | W_Ret n e \<Rightarrow> True | _ \<Rightarrow> False)"

definition reader_free :: "'e sys \<Rightarrow> bool" where
  "reader_free s = (case rthr s of R_Idle \<Rightarrow> True | R_Ret bs e \<Rightarrow> True | _ \<Rightarrow> False)"

fun step :: "'e engine \<Rightarrow> event \<Rightarrow> 'e sys \<Rightarrow> 'e sys option" where
  "step E ev s =
     (if panicked s \<noteq> None then None
      else case ev of
        WriteCall data \<Rightarrow>
          (if writer_free s then Some (writer_call data (s\<lparr>w_samples := False\<rparr>)) else None)
      | WriteSamplesCall samples \<Rightarrow>
          (if writer_free s then
             (if samples = [] then Some (s\<lparr>panicked := Some IndexOutOfRange\<rparr>)
              else Some (writer_call (samples_bytes samples) (s\<lparr>w_samples := True\<rparr>)))
           else None)
      | WriterStep \<Rightarrow> writer_step E s
      | ReadCall dlen \<Rightarrow>
          (if reader_free s then Some (reader_call E dlen (s\<lparr>r_samples := False\<rparr>)) else None)
      | ReadSamplesCall len \<Rightarrow>
          (if reader_free s then
             (if len = 0 then Some (s\<lparr>panicked := Some IndexOutOfRange\<rparr>)
              else Some (reader_call E (len * 4) (s\<lparr>r_samples := True\<rparr>)))
           else None)
      | ReaderStep \<Rightarrow> reader_step E s
      | CloseCall \<Rightarrow> Some (close_call s))"

fun run :: "'e engine \<Rightarrow> event list \<Rightarrow> 'e sys \<Rightarrow> 'e sys option" where
  "run E [] s = Some s"
| "run E (ev # evs) s = (case step E ev s of None \<Rightarrow> None | Some s' \<Rightarrow> run E evs s')"

text \<open>What a returned call hands to its caller; a panic hands nothing back.\<close>

definition write_result :: "'e sys \<Rightarrow> (nat \<times> error option) option" where
  "write_result s =
     (if panicked s \<noteq> None then None
      else case wthr s of
        W_Ret n e \<Rightarrow> Some (if w_samples s then n div 4 else n, e)
      | _ \<Rightarrow> None)"

definition read_result :: "'e sys \<Rightarrow> (nat \<times> error option) option" where
  "read_result s =
     (if panicked s \<noteq> None then None
      else case rthr s of
        R_Ret bs e \<Rightarrow> Some (if r_samples s then length bs div 4 else length bs, e)
      | _ \<Rightarrow> None)"


subsection \<open>Invariants\<close>

text \<open>
  \<open>C\<close> is the length of a window in bytes. The writer outside a call (\<open>wrest_ok\<close>), the
  writer returned (\<open>wret_ok\<close>), the writer with a window in hand (\<open>wframe_ok\<close>), and the
  writer at the head of its loop (\<open>whead_ok\<close>).
\<close>

definition wrest_ok :: "nat \<Rightarrow> 'e sys \<Rightarrow> bool" where
  "wrest_ok C s \<longleftrightarrow>
     writeOff (obj s) < C \<and>
     (\<not> closed (obj s) \<longrightarrow>
        concat (submitted s) @ take (writeOff (obj s)) (writeBuf (obj s)) = fed s \<and>
        accepted s = length (fed s))"

definition wret_ok :: "nat \<Rightarrow> 'e sys \<Rightarrow> nat \<Rightarrow> error option \<Rightarrow> bool" where
  "wret_ok C s n e \<longleftrightarrow>
     n \<le> length (w_arg s) \<and> w_sub0 s \<le> length (submitted s) \<and>
     (e = None \<longrightarrow> n = length (w_arg s)) \<and>
     (e = Some EOF \<longrightarrow> closed (obj s) \<and>
        (if w_sub0 s < length (submitted s)
         then n + w_off0 s = (length (submitted s) - w_sub0 s) * C \<and>
              concat (submitted s) @ drop n (w_arg s) = fed s \<and>
              accepted s = length (concat (submitted s))
         else n = 0))"

definition wframe_ok :: "nat \<Rightarrow> 'e sys \<Rightarrow> byte list \<Rightarrow> byte list \<Rightarrow> nat \<Rightarrow> nat \<Rightarrow> bool" where
  "wframe_ok C s buf rest n c \<longleftrightarrow>
     writeOff (obj s) = 0 \<and> C \<le> length buf \<and>
     concat (submitted s) @ take C buf @ rest = fed s \<and>
     n + c \<le> length (w_arg s) \<and> rest = drop (n + c) (w_arg s) \<and>
     w_sub0 s \<le> length (submitted s) \<and>
     n + c + w_off0 s = (length (submitted s) - w_sub0 s + 1) * C \<and>
     accepted s + length (w_arg s) = length (fed s) \<and>
     (w_sub0 s < length (submitted s) \<longrightarrow> c = C \<and> take C buf @ rest = drop n (w_arg s)) \<and>
     (w_sub0 s = length (submitted s) \<longrightarrow> n = 0)"

definition inv_writer :: "nat \<Rightarrow> 'e sys \<Rightarrow> bool" where
  "inv_writer C s \<longleftrightarrow>
     length (writeBuf (obj s)) = C \<and> 4 \<le> C \<and>
     (\<forall>w \<in> set (submitted s). length w = C) \<and>
     (case wthr s of
        W_Idle \<Rightarrow> wrest_ok C s
      | W_Ret n e \<Rightarrow> wrest_ok C s \<and> wret_ok C s n e
      | W_Permit buf rest n c \<Rightarrow> wframe_ok C s buf rest n c
      | W_Lock buf rest n c \<Rightarrow> wframe_ok C s buf rest n c)"

definition whead_ok :: "nat \<Rightarrow> 'e sys \<Rightarrow> byte list \<Rightarrow> nat \<Rightarrow> bool" where
  "whead_ok C s data n \<longleftrightarrow>
     length (writeBuf (obj s)) = C \<and> 4 \<le> C \<and>
     (\<forall>w \<in> set (submitted s). length w = C) \<and>
     \<not> closed (obj s) \<and>
     writeOff (obj s) < C \<and>
     concat (submitted s) @ take (writeOff (obj s)) (writeBuf (obj s)) @ data = fed s \<and>
     n \<le> length (w_arg s) \<and> data = drop n (w_arg s) \<and>
     w_sub0 s \<le> length (submitted s) \<and>
     n + w_off0 s = (length (submitted s) - w_sub0 s) * C + writeOff (obj s) \<and>
     accepted s + length (w_arg s) = length (fed s) \<and>
     (w_sub0 s < length (submitted s) \<longrightarrow> writeOff (obj s) = 0) \<and>
     (w_sub0 s = length (submitted s) \<longrightarrow> n = 0)"


definition rret_ok :: "nat \<Rightarrow> 'e sys \<Rightarrow> byte list \<Rightarrow> error option \<Rightarrow> bool" where
  "rret_ok C s bs e \<longleftrightarrow>
     length bs \<le> C \<and> length bs \<le> r_dlen s \<and> length (emitted s) \<le> r_emit0 s + 1 \<and>
     (r_off0 s < C \<longrightarrow>
        e = None \<and> length (emitted s) = r_emit0 s \<and>
        bs = copy_out (r_dlen s) (drop (r_off0 s) (readBuf (obj s))) \<and>
        readOff (obj s) = r_off0 s + length bs) \<and>
     (C \<le> r_off0 s \<and> r_dlen s = 0 \<longrightarrow>
        e = None \<and> bs = [] \<and> length (emitted s) = r_emit0 s) \<and>
     (C \<le> r_off0 s \<and> 0 < r_dlen s \<and> e = None \<longrightarrow>
        length (emitted s) = r_emit0 s + 1 \<and>
        bs = copy_out (r_dlen s) (last (emitted s)) \<and> bs \<noteq> []) \<and>
     (e = Some EOF \<longrightarrow>
        closed (obj s) \<and> bs = [] \<and> readOff (obj s) = C \<and>
        length (emitted s) = r_emit0 s \<and> 0 < r_dlen s \<and> r_off0 s = C)"

definition rwait_ok :: "nat \<Rightarrow> 'e sys \<Rightarrow> nat \<Rightarrow> bool" where
  "rwait_ok C s d \<longleftrightarrow>
     d = r_dlen s \<and> 0 < d \<and> readOff (obj s) = C \<and> r_off0 s = C \<and>
     length (emitted s) = r_emit0 s"

definition inv_reader :: "nat \<Rightarrow> 'e sys \<Rightarrow> bool" where
  "inv_reader C s \<longleftrightarrow>
     length (readBuf (obj s)) = C \<and> 4 \<le> C \<and> readOff (obj s) \<le> C \<and>
     (\<forall>w \<in> set (emitted s). length w = C) \<and>
     delivered s @ drop (readOff (obj s)) (readBuf (obj s)) = concat (emitted s) \<and>
     (case rthr s of
        R_Idle \<Rightarrow> True
      | R_Wait d \<Rightarrow> rwait_ok C s d
      | R_Woken d \<Rightarrow> rwait_ok C s d
      | R_Ret bs e \<Rightarrow> rret_ok C s bs e)"

definition holds_permit :: "'e sys \<Rightarrow> bool" where
  "holds_permit s = (case wthr s of W_Lock buf rest n c \<Rightarrow> True | _ \<Rightarrow> False)"

definition inv_sync :: "'e sys \<Rightarrow> bool" where
  "inv_sync s \<longleftrightarrow>
     permitClosed (obj s) = closed (obj s) \<and> writePermit (obj s) \<le> 1 \<and>
     (case rthr s of
        R_Wait d \<Rightarrow> \<not> closed (obj s) \<and> (writePermit (obj s) = 1 \<or> holds_permit s)
      | _ \<Rightarrow> True)"

definition INV :: "nat \<Rightarrow> 'e sys \<Rightarrow> bool" where
  "INV C s \<longleftrightarrow> inv_writer C s \<and> inv_reader C s \<and> inv_sync s"


subsection \<open>Blocked goroutines\<close>

text \<open>
  The writer is blocked when it stands at the receive and the channel is empty and open;
  the reader is blocked when it sits in the wait queue of \<open>rwCond\<close>.
\<close>

definition writer_blocked :: "'e sys \<Rightarrow> bool" where
  "writer_blocked s =
     (case wthr s of W_Permit buf rest n c \<Rightarrow> recv_permit (obj s) = None | _ \<Rightarrow> False)"

definition reader_blocked :: "'e sys \<Rightarrow> bool" where
  "reader_blocked s = (case rthr s of R_Wait d \<Rightarrow> True | _ \<Rightarrow> False)"

subsection \<open>Engines and runs for the examples\<close>

text \<open>
  An engine that gives back every window it was given, in order, and one whose creation
  fails: its handle is the null pointer \<open>None\<close>, and it never has output.
\<close>

definition echo_engine :: "byte list list engine" where
  "echo_engine =
     \<lparr> paulstretch_create = (\<lambda>stretchFactor windowSize. []),
       paulstretch_write = (\<lambda>e w. e @ [w]),
       paulstretch_read = (\<lambda>e. case e of [] \<Rightarrow> ([], None) | w # r \<Rightarrow> (r, Some ((!) w))) \<rparr>"

definition null_engine :: "unit option engine" where
  "null_engine =
     \<lparr> paulstretch_create = (\<lambda>stretchFactor windowSize. None),
       paulstretch_write = (\<lambda>e w. e),
       paulstretch_read = (\<lambda>e. (e, None)) \<rparr>"

text \<open>The adapter \<open>NewPaulstretch(10, 1)\<close> over the echo engine: windows of four bytes.\<close>

definition demo_adapter :: "byte list list Paulstretch" where
  "demo_adapter =
     \<lparr> ps = [], writeBuf = [0, 0, 0, 0], writeOff = 0, readBuf = [0, 0, 0, 0], readOff = 4,
       closed = False, writePermit = 1, permitClosed = False \<rparr>"

text \<open>
  Six bytes are written and the first window goes to the engine; the reader takes it in
  two calls, finds nothing more and waits; two more bytes complete the second window,
  whose submission wakes the reader.
\<close>

definition demo_events :: "event list" where
  "demo_events =
     [WriteCall [1, 2, 3, 4, 5, 6], WriterStep, WriterStep, ReadCall 3, ReadCall 3, ReadCall 3,
      WriteCall [7, 8], WriterStep, WriterStep, ReaderStep]"

section \<open>Proofs\<close>

subsection \<open>Copying\<close>

lemma copy_at_length [simp]: "off \<le> length dst \<Longrightarrow> length (copy_at dst off src) = length dst"
  by (auto simp: copy_at_def min_def)

lemma copy_at_take_fill:
  "off \<le> length dst \<Longrightarrow> length dst \<le> off + length src \<Longrightarrow>
   copy_at dst off src = take off dst @ take (length dst - off) src"
  by (simp add: copy_at_def)

lemma copy_at_take_part:
  "off + length src \<le> length dst \<Longrightarrow>
   take (off + length src) (copy_at dst off src) = take off dst @ src"
  by (simp add: copy_at_def)

lemma take_drop_rejoin [simp]:
  "take k (drop n xs) @ drop (k + n) xs = drop n xs"
  "take k (drop n xs) @ drop (n + k) xs = drop n xs"
  by (metis append_take_drop_id drop_drop, metis add.commute append_take_drop_id drop_drop)

subsection \<open>The writer's invariant\<close>

lemma writer_loop_direct:
  assumes "whead_ok C s data n"
    and "length (writeBuf (obj s)) \<le> writeOff (obj s) + length data"
    and "writeOff (obj s) = 0"
  shows "inv_writer C (writer_loop data n s)"
  using assms
  by (auto simp: writer_loop_def write_head_def inv_writer_def whead_ok_def wframe_ok_def
      add.commute)


lemma whead_okD:
  assumes "whead_ok C s data n"
  shows "length (writeBuf (obj s)) = C" "4 \<le> C" "\<forall>w \<in> set (submitted s). length w = C"
    "\<not> closed (obj s)" "writeOff (obj s) < C"
    "concat (submitted s) @ take (writeOff (obj s)) (writeBuf (obj s)) @ data = fed s"
    "n \<le> length (w_arg s)" "data = drop n (w_arg s)" "w_sub0 s \<le> length (submitted s)"
    "n + w_off0 s = (length (submitted s) - w_sub0 s) * C + writeOff (obj s)"
    "accepted s + length (w_arg s) = length (fed s)"
    "w_sub0 s < length (submitted s) \<Longrightarrow> writeOff (obj s) = 0"
    "w_sub0 s = length (submitted s) \<Longrightarrow> n = 0"
  using assms unfolding whead_ok_def by blast+

lemma writer_loop_staged:
  assumes h: "whead_ok C s data n"
    and fill: "length (writeBuf (obj s)) \<le> writeOff (obj s) + length data"
    and off: "writeOff (obj s) \<noteq> 0"
  shows "inv_writer C (writer_loop data n s)"
proof -
  note d = whead_okD [OF h]
  define c where "c = C - writeOff (obj s)"
  define buf where "buf = take (writeOff (obj s)) (writeBuf (obj s)) @ take c data"
  define s' where "s' = s\<lparr>obj := (obj s)\<lparr>writeBuf := buf, writeOff := 0\<rparr>,
                           wthr := W_Permit buf (drop c data) n c\<rparr>"
  have c_le: "c \<le> length data" using fill d(1) d(5) by (simp add: c_def)
  have len_data: "length data = length (w_arg s) - n" using d(8) by simp
  have lenbuf: "length buf = C" using c_le d(1) d(5) by (simp add: buf_def c_def)
  have copy: "copy_at (writeBuf (obj s)) (writeOff (obj s)) data = buf"
    using fill d(1) d(5) by (simp add: copy_at_take_fill buf_def c_def)
  have run: "writer_loop data n s = s'"
    using fill off d(1) d(5) copy
    by (simp add: writer_loop_def write_head_def Let_def s'_def c_def)
  have k0: "w_sub0 s = length (submitted s)" using d(9) d(12) off by linarith
  have f1: "concat (submitted s) @ take C buf @ drop c data = fed s"
  proof -
    have "take C buf = buf" using lenbuf by simp
    then have "take C buf @ drop c data = take (writeOff (obj s)) (writeBuf (obj s)) @ data"
      by (simp add: buf_def)
    then show ?thesis using d(6) by simp
  qed
  have f2: "drop c data = drop (n + c) (w_arg s)" using d(8) by (simp add: add.commute)
  have f3: "n + c \<le> length (w_arg s)" using c_le len_data d(7) by linarith
  have f4: "n + c + w_off0 s = (length (submitted s) - w_sub0 s + 1) * C"
    using d(10) d(5) by (simp add: c_def)
  have "wframe_ok C s' buf (drop c data) n c"
    unfolding wframe_ok_def
    using lenbuf f1 f2 f3 f4 d(11) d(13) k0 by (simp add: s'_def)
  then have "inv_writer C s'"
    using lenbuf d(2) d(3) by (simp add: inv_writer_def s'_def)
  then show ?thesis by (simp add: run)
qed

lemma writer_loop_tail:
  assumes h: "whead_ok C s data n"
    and part: "\<not> length (writeBuf (obj s)) \<le> writeOff (obj s) + length data"
  shows "inv_writer C (writer_loop data n s)"
proof -
  note d = whead_okD [OF h]
  define s' where "s' = s\<lparr>obj := (if data = [] then obj s else
                  (obj s)\<lparr>writeBuf := copy_at (writeBuf (obj s)) (writeOff (obj s)) data,
                         writeOff := writeOff (obj s) + length data\<rparr>),
                 wthr := W_Ret (n + length data) None,
                 accepted := accepted s + (n + length data)\<rparr>"
  have run: "writer_loop data n s = s'"
    using part by (simp add: writer_loop_def write_head_def s'_def)
  have len_data: "n + length data = length (w_arg s)" using d(8) d(7) by simp
  have lenw: "length (writeBuf (obj s')) = C" using part d(1) by (simp add: s'_def)
  have offw: "writeOff (obj s') = writeOff (obj s) + length data" by (simp add: s'_def)
  have lt: "writeOff (obj s') < C" using part d(1) offw by simp
  have tk: "take (writeOff (obj s')) (writeBuf (obj s')) =
            take (writeOff (obj s)) (writeBuf (obj s)) @ data"
    using part by (simp add: s'_def copy_at_take_part)
  have "wrest_ok C s'"
    unfolding wrest_ok_def using lt tk d(6) d(11) len_data by (simp add: s'_def)
  moreover have "wret_ok C s' (n + length data) None"
    unfolding wret_ok_def using len_data d(9) by (simp add: s'_def)
  ultimately have "inv_writer C s'"
    using lenw d(2) d(3) by (simp add: inv_writer_def s'_def)
  then show ?thesis by (simp add: run)
qed

lemma writer_loop_inv:
  assumes "whead_ok C s data n"
  shows "inv_writer C (writer_loop data n s)"
  using assms writer_loop_direct writer_loop_staged writer_loop_tail by blast

lemma Signal_fields [simp]:
  "obj (Signal s) = obj s" "wthr (Signal s) = wthr s" "panicked (Signal s) = panicked s"
  "submitted (Signal s) = submitted s" "emitted (Signal s) = emitted s"
  "fed (Signal s) = fed s" "accepted (Signal s) = accepted s"
  "delivered (Signal s) = delivered s" "w_arg (Signal s) = w_arg s"
  "w_sub0 (Signal s) = w_sub0 s" "w_off0 (Signal s) = w_off0 s"
  "r_dlen (Signal s) = r_dlen s" "r_emit0 (Signal s) = r_emit0 s"
  "r_off0 (Signal s) = r_off0 s" "w_samples (Signal s) = w_samples s"
  "r_samples (Signal s) = r_samples s"
  by (simp_all add: Signal_def split: rthread.split)

lemma Signal_rthr:
  "rthr (Signal s) = (case rthr s of R_Wait d \<Rightarrow> R_Woken d | t \<Rightarrow> t)"
  by (simp add: Signal_def split: rthread.split)

lemma wframe_ok_cong:
  assumes "writeOff (obj s') = writeOff (obj s)"
    and "submitted s' = submitted s" "fed s' = fed s"
    and "accepted s' = accepted s" "w_arg s' = w_arg s" "w_sub0 s' = w_sub0 s"
    and "w_off0 s' = w_off0 s"
  shows "wframe_ok C s' buf rest n c = wframe_ok C s buf rest n c"
  unfolding wframe_ok_def assms ..

lemma wrest_ok_cong:
  assumes "writeBuf (obj s') = writeBuf (obj s)" "writeOff (obj s') = writeOff (obj s)"
    and "closed (obj s') = closed (obj s)"
    and "submitted s' = submitted s" "fed s' = fed s" "accepted s' = accepted s"
  shows "wrest_ok C s' = wrest_ok C s"
  unfolding wrest_ok_def assms ..

lemma wret_ok_cong:
  assumes "closed (obj s') = closed (obj s)"
    and "submitted s' = submitted s" "fed s' = fed s"
    and "accepted s' = accepted s" "w_arg s' = w_arg s" "w_sub0 s' = w_sub0 s"
    and "w_off0 s' = w_off0 s"
  shows "wret_ok C s' n e = wret_ok C s n e"
  unfolding wret_ok_def assms ..

lemma wrest_ok_closed:
  assumes "wrest_ok C s" "writeOff (obj s') = writeOff (obj s)" "closed (obj s')"
  shows "wrest_ok C s'"
  using assms by (simp add: wrest_ok_def)

lemma wret_ok_closed:
  assumes "wret_ok C s n e" "closed (obj s')"
    and "submitted s' = submitted s" "fed s' = fed s"
    and "accepted s' = accepted s" "w_arg s' = w_arg s" "w_sub0 s' = w_sub0 s"
    and "w_off0 s' = w_off0 s"
  shows "wret_ok C s' n e"
  using assms(1,2) unfolding wret_ok_def assms(3-) by simp

lemma inv_writer_cong:
  assumes inv: "inv_writer C s"
    and eqs: "writeBuf (obj s') = writeBuf (obj s)" "writeOff (obj s') = writeOff (obj s)"
      "wthr s' = wthr s" "submitted s' = submitted s" "fed s' = fed s"
      "accepted s' = accepted s" "w_arg s' = w_arg s" "w_sub0 s' = w_sub0 s"
      "w_off0 s' = w_off0 s"
    and cl: "closed (obj s') = closed (obj s) \<or> closed (obj s')"
  shows "inv_writer C s'"
proof -
  have base: "length (writeBuf (obj s')) = C" "4 \<le> C" "\<forall>w \<in> set (submitted s'). length w = C"
    using inv by (simp_all add: inv_writer_def eqs)
  have fr: "\<And>buf rest n c. wframe_ok C s' buf rest n c = wframe_ok C s buf rest n c"
    by (rule wframe_ok_cong) (simp_all add: eqs)
  have rest: "wrest_ok C s \<Longrightarrow> wrest_ok C s'"
    using cl wrest_ok_cong [of s' s C] wrest_ok_closed [of C s s'] eqs by metis
  have ret: "\<And>n e. wret_ok C s n e \<Longrightarrow> wret_ok C s' n e"
    using cl wret_ok_cong [of s' s C] wret_ok_closed [of C s _ _ s'] eqs by metis
  show ?thesis
  proof (cases "wthr s")
    case W_Idle
    then show ?thesis using inv base rest by (simp add: inv_writer_def eqs)
  next
    case (W_Permit buf r n c)
    then show ?thesis using inv base fr by (simp add: inv_writer_def eqs)
  next
    case (W_Lock buf r n c)
    then show ?thesis using inv base fr by (simp add: inv_writer_def eqs)
  next
    case (W_Ret n e)
    then show ?thesis using inv base rest ret by (simp add: inv_writer_def eqs)
  qed
qed

lemma wframe_okD:
  assumes "wframe_ok C s buf rest n c"
  shows "writeOff (obj s) = 0" "C \<le> length buf"
    "concat (submitted s) @ take C buf @ rest = fed s"
    "n + c \<le> length (w_arg s)" "rest = drop (n + c) (w_arg s)"
    "w_sub0 s \<le> length (submitted s)"
    "n + c + w_off0 s = (length (submitted s) - w_sub0 s + 1) * C"
    "accepted s + length (w_arg s) = length (fed s)"
    "w_sub0 s < length (submitted s) \<Longrightarrow> c = C"
    "w_sub0 s < length (submitted s) \<Longrightarrow> take C buf @ rest = drop n (w_arg s)"
    "w_sub0 s = length (submitted s) \<Longrightarrow> n = 0"
  using assms unfolding wframe_ok_def by blast+

lemma writer_call_inv_writer:
  assumes inv: "inv_writer C s" and free: "writer_free s"
  shows "inv_writer C (writer_call d (s\<lparr>w_samples := b\<rparr>))"
proof (cases "closed (obj s)")
  case True
  with inv free show ?thesis
    by (auto simp: writer_call_def inv_writer_def wrest_ok_def wret_ok_def writer_free_def
        split: wthread.splits)
next
  case False
  define s1 where "s1 = s\<lparr>w_samples := b, fed := fed s @ d, w_arg := d,
                           w_sub0 := length (submitted s), w_off0 := writeOff (obj s)\<rparr>"
  have "wrest_ok C s"
    using inv free by (auto simp: inv_writer_def writer_free_def split: wthread.splits)
  then have "whead_ok C s1 d 0"
    using inv False by (simp add: whead_ok_def wrest_ok_def inv_writer_def s1_def)
  then have "inv_writer C (writer_loop d 0 s1)" by (rule writer_loop_inv)
  then show ?thesis using False by (simp add: writer_call_def s1_def)
qed

lemma wframe_no_fault:
  assumes "wframe_ok C s buf rest n c" "4 \<le> C"
  shows "length buf div 4 \<noteq> 0"
proof -
  have "4 \<le> length buf" using assms by (simp add: wframe_ok_def)
  then show ?thesis by (simp add: div_greater_zero_iff)
qed

lemma writer_submit_head:
  assumes fr: "wframe_ok C s buf rest n c" and C: "length (writeBuf (obj s)) = C" "4 \<le> C"
    and subs: "\<forall>w \<in> set (submitted s). length w = C" and op: "\<not> closed (obj s)"
  shows "whead_ok C (Signal (s\<lparr>obj := (obj s)\<lparr>ps := e\<rparr>,
                               submitted := submitted s @ [take C buf]\<rparr>)) rest (n + c)"
proof -
  note d = wframe_okD [OF fr]
  have k: "length (submitted s) + 1 - w_sub0 s = length (submitted s) - w_sub0 s + 1"
    using d(6) by simp
  have "length (take C buf) = C" using d(2) by simp
  then show ?thesis
    unfolding whead_ok_def
    using C subs op d(1) d(3) d(4) d(5) d(6) d(7) d(8) k
    by (simp del: length_take)
qed

lemma writer_abort_ret:
  assumes fr: "wframe_ok C s buf rest n c" and cl: "closed (obj s)"
  shows "wret_ok C (s\<lparr>wthr := W_Ret n (Some EOF), accepted := accepted s + n\<rparr>) n (Some EOF)"
proof -
  note d = wframe_okD [OF fr]
  note a = d(4) d(6) d(3) d(7) d(8) d(11) d(9) d(10)
  show ?thesis
  proof (cases "w_sub0 s < length (submitted s)")
    case True
    have e1: "concat (submitted s) @ drop n (w_arg s) = fed s" using a(3) a(8) [OF True] by simp
    have "length (concat (submitted s)) + (length (w_arg s) - n) = length (fed s)"
      using arg_cong [OF e1, of length] by simp
    then have e2: "accepted s + n = length (concat (submitted s))" using a(5) a(1) by linarith
    have e3: "n + w_off0 s = (length (submitted s) - w_sub0 s) * C"
      using a(4) a(7) [OF True] by simp
    show ?thesis using True e1 e2 e3 a(1) a(2) cl by (simp add: wret_ok_def)
  next
    case False
    then have "w_sub0 s = length (submitted s)" using a(2) by simp
    then show ?thesis using a(6) a(2) cl by (simp add: wret_ok_def)
  qed
qed

lemma writer_step_inv_writer:
  assumes inv: "inv_writer C s" and st: "writer_step E s = Some s'"
  shows "inv_writer C s'"
proof (cases "wthr s")
  case W_Idle
  with st show ?thesis by (simp add: writer_step_def)
next
  case (W_Ret n e)
  with st show ?thesis by (simp add: writer_step_def)
next
  case (W_Permit buf rest n c)
  with st obtain p where p: "recv_permit (obj s) = Some p"
    and s': "s' = s\<lparr>obj := p, wthr := W_Lock buf rest n c\<rparr>"
    by (auto simp: writer_step_def split: option.splits)
  have "writeBuf p = writeBuf (obj s)" "writeOff p = writeOff (obj s)" "closed p = closed (obj s)"
    using p by (auto simp: recv_permit_def split: if_splits)
  then have "wframe_ok C s' buf rest n c = wframe_ok C s buf rest n c"
    by (intro wframe_ok_cong) (simp_all add: s')
  with inv W_Permit show ?thesis
    using \<open>writeBuf p = writeBuf (obj s)\<close> by (simp add: s' inv_writer_def)
next
  case (W_Lock buf rest n c)
  have fr: "wframe_ok C s buf rest n c" and C: "length (writeBuf (obj s)) = C" "4 \<le> C"
    and subs: "\<forall>w \<in> set (submitted s). length w = C"
    using inv W_Lock by (simp_all add: inv_writer_def)
  show ?thesis
  proof (cases "closed (obj s)")
    case True
    then have s': "s' = s\<lparr>wthr := W_Ret n (Some EOF), accepted := accepted s + n\<rparr>"
      using st W_Lock by (simp add: writer_step_def write_crit_def)
    have "wrest_ok C s'" using fr C True by (simp add: s' wrest_ok_def wframe_ok_def)
    moreover have "wret_ok C s' n (Some EOF)"
      unfolding s' using fr True by (rule writer_abort_ret)
    ultimately show ?thesis using C subs by (simp add: inv_writer_def s')
  next
    case False
    have nf: "length buf div 4 \<noteq> 0" using fr C(2) by (rule wframe_no_fault)
    have s': "s' = writer_loop rest (n + c)
        (Signal (s\<lparr>obj := (obj s)\<lparr>ps := paulstretch_write E (ps (obj s)) (take C buf)\<rparr>,
                   submitted := submitted s @ [take C buf]\<rparr>))"
      using st W_Lock False nf C(1) by (simp add: writer_step_def write_crit_def Let_def)
    show ?thesis unfolding s'
      by (rule writer_loop_inv, rule writer_submit_head [OF fr C subs False])
  qed
qed

subsection \<open>What the reader and Close leave alone\<close>

lemma read_crit_frame:
  assumes "read_crit E p d = (p', r)"
  shows "writeBuf p' = writeBuf p" "writeOff p' = writeOff p" "closed p' = closed p"
    "permitClosed p' = permitClosed p"
  using assms
  by (auto simp: read_crit_def Let_def split: prod.splits option.splits if_splits)

lemma reader_fetch_frame:
  "writeBuf (obj (reader_fetch E d s)) = writeBuf (obj s)"
  "writeOff (obj (reader_fetch E d s)) = writeOff (obj s)"
  "closed (obj (reader_fetch E d s)) = closed (obj s)"
  "permitClosed (obj (reader_fetch E d s)) = permitClosed (obj s)"
  "wthr (reader_fetch E d s) = wthr s" "submitted (reader_fetch E d s) = submitted s"
  "fed (reader_fetch E d s) = fed s" "accepted (reader_fetch E d s) = accepted s"
  "w_arg (reader_fetch E d s) = w_arg s" "w_sub0 (reader_fetch E d s) = w_sub0 s"
  "w_off0 (reader_fetch E d s) = w_off0 s"
  "r_dlen (reader_fetch E d s) = r_dlen s" "r_emit0 (reader_fetch E d s) = r_emit0 s"
  "r_off0 (reader_fetch E d s) = r_off0 s"
  using read_crit_frame [of E "obj s" d]
  by (auto simp: reader_fetch_def split: prod.splits rcrit.splits)

lemma reader_call_frame:
  "writeBuf (obj (reader_call E d s)) = writeBuf (obj s)"
  "writeOff (obj (reader_call E d s)) = writeOff (obj s)"
  "closed (obj (reader_call E d s)) = closed (obj s)"
  "permitClosed (obj (reader_call E d s)) = permitClosed (obj s)"
  "wthr (reader_call E d s) = wthr s" "submitted (reader_call E d s) = submitted s"
  "fed (reader_call E d s) = fed s" "accepted (reader_call E d s) = accepted s"
  "w_arg (reader_call E d s) = w_arg s" "w_sub0 (reader_call E d s) = w_sub0 s"
  "w_off0 (reader_call E d s) = w_off0 s"
  by (auto simp: reader_call_def reader_fetch_frame Let_def read_fast_def
      split: option.splits prod.splits if_splits)

lemma close_call_frame:
  "writeBuf (obj (close_call s)) = writeBuf (obj s)"
  "writeOff (obj (close_call s)) = writeOff (obj s)"
  "readBuf (obj (close_call s)) = readBuf (obj s)"
  "readOff (obj (close_call s)) = readOff (obj s)"
  "ps (obj (close_call s)) = ps (obj s)"
  "writePermit (obj (close_call s)) = writePermit (obj s)"
  "wthr (close_call s) = wthr s" "submitted (close_call s) = submitted s"
  "emitted (close_call s) = emitted s" "delivered (close_call s) = delivered s"
  "fed (close_call s) = fed s" "accepted (close_call s) = accepted s"
  "w_arg (close_call s) = w_arg s" "w_sub0 (close_call s) = w_sub0 s"
  "w_off0 (close_call s) = w_off0 s"
  "r_dlen (close_call s) = r_dlen s" "r_emit0 (close_call s) = r_emit0 s"
  "r_off0 (close_call s) = r_off0 s"
  by (auto simp: close_call_def Close_def split: sum.splits prod.splits if_splits)

lemma close_call_closed:
  "closed (obj (close_call s)) = closed (obj s) \<or> closed (obj (close_call s))"
  by (auto simp: close_call_def Close_def split: sum.splits prod.splits if_splits)

lemma reader_call_inv_writer:
  "inv_writer C s \<Longrightarrow> inv_writer C (reader_call E d (s\<lparr>r_samples := b\<rparr>))"
  by (erule inv_writer_cong) (simp_all add: reader_call_frame)

lemma reader_step_inv_writer:
  assumes "inv_writer C s" "reader_step E s = Some s'"
  shows "inv_writer C s'"
proof -
  obtain d where s': "s' = reader_fetch E d s"
    using assms(2) by (auto simp: reader_step_def split: rthread.splits)
  show ?thesis
    unfolding s' using assms(1) by (rule inv_writer_cong) (simp_all add: reader_fetch_frame)
qed

lemma close_call_inv_writer:
  "inv_writer C s \<Longrightarrow> inv_writer C (close_call s)"
  by (erule inv_writer_cong) (simp_all add: close_call_frame close_call_closed)

lemma panic_inv_writer:
  "inv_writer C s \<Longrightarrow> inv_writer C (s\<lparr>panicked := x\<rparr>)"
  by (erule inv_writer_cong) simp_all

subsection \<open>The reader's invariant\<close>

lemma rwait_ok_cong:
  assumes "readOff (obj s') = readOff (obj s)" "emitted s' = emitted s"
    and "r_dlen s' = r_dlen s" "r_emit0 s' = r_emit0 s" "r_off0 s' = r_off0 s"
  shows "rwait_ok C s' d = rwait_ok C s d"
  unfolding rwait_ok_def assms ..

lemma rret_ok_cong:
  assumes "rret_ok C s bs e"
    and "readBuf (obj s') = readBuf (obj s)" "readOff (obj s') = readOff (obj s)"
    and "emitted s' = emitted s"
    and "r_dlen s' = r_dlen s" "r_emit0 s' = r_emit0 s" "r_off0 s' = r_off0 s"
    and "closed (obj s) \<longrightarrow> closed (obj s')"
  shows "rret_ok C s' bs e"
  using assms(1,8) unfolding rret_ok_def assms(2-7) by blast

lemma inv_reader_cong:
  assumes inv: "inv_reader C s"
    and eqs: "readBuf (obj s') = readBuf (obj s)" "readOff (obj s') = readOff (obj s)"
      "emitted s' = emitted s" "delivered s' = delivered s"
      "r_dlen s' = r_dlen s" "r_emit0 s' = r_emit0 s" "r_off0 s' = r_off0 s"
    and cl: "closed (obj s) \<longrightarrow> closed (obj s')"
    and thr: "rthr s' = rthr s \<or> rthr s' = rthr (Signal s)"
  shows "inv_reader C s'"
proof -
  have base: "length (readBuf (obj s')) = C" "4 \<le> C" "readOff (obj s') \<le> C"
    "\<forall>w \<in> set (emitted s'). length w = C"
    "delivered s' @ drop (readOff (obj s')) (readBuf (obj s')) = concat (emitted s')"
    using inv by (simp_all add: inv_reader_def eqs)
  have w: "\<And>d. rwait_ok C s' d = rwait_ok C s d"
    by (rule rwait_ok_cong) (simp_all add: eqs)
  have r: "\<And>bs e. rret_ok C s bs e \<Longrightarrow> rret_ok C s' bs e"
    by (erule rret_ok_cong) (simp_all add: eqs cl)
  show ?thesis
  proof (cases "rthr s")
    case R_Idle
    then show ?thesis using thr base by (auto simp: inv_reader_def Signal_rthr)
  next
    case (R_Wait d)
    then have "rwait_ok C s d" using inv by (simp add: inv_reader_def)
    then show ?thesis using thr base w R_Wait by (auto simp: inv_reader_def Signal_rthr)
  next
    case (R_Woken d)
    then have "rwait_ok C s d" using inv by (simp add: inv_reader_def)
    then show ?thesis using thr base w R_Woken by (auto simp: inv_reader_def Signal_rthr)
  next
    case (R_Ret bs e)
    then have "rret_ok C s bs e" using inv by (simp add: inv_reader_def)
    then show ?thesis using thr base r R_Ret by (auto simp: inv_reader_def Signal_rthr)
  qed
qed

lemma bytes_at_length [simp]: "length (bytes_at p n) = n"
  by (simp add: bytes_at_def)

lemma copy_out_length [simp]: "length (copy_out d src) = min d (length src)"
  by (simp add: copy_out_def)

lemma copy_out_rejoin:
  "copy_out d (drop off buf) @ drop (off + min d (length buf - off)) buf = drop off buf"
  by (simp add: copy_out_def add.commute)

lemma copy_out_all: "length src \<le> d \<Longrightarrow> copy_out d src = src"
  by (simp add: copy_out_def)

lemma copy_at_suffix:
  "n \<le> length dst \<Longrightarrow> length out = length dst \<Longrightarrow>
   drop n (copy_at dst n (drop n out)) = drop n out"
  by (simp add: copy_at_def)

text \<open>The three outcomes of a pass of the reader under the lock.\<close>

lemma read_crit_got:
  assumes "paulstretch_read E (ps p) = (e, Some ptr)"
  shows "read_crit E p d =
    (let out = bytes_at ptr (length (readBuf p)); bs = copy_out d out
     in (if length bs < length (readBuf p)
         then p\<lparr>ps := e, readBuf := copy_at (readBuf p) (length bs) (drop (length bs) out),
                 readOff := length bs\<rparr>
         else p\<lparr>ps := e\<rparr>, R_Got out bs))"
  using assms by (simp add: read_crit_def Let_def)

lemma read_crit_eof:
  assumes "paulstretch_read E (ps p) = (e, None)" "closed p"
  shows "read_crit E p d = (p\<lparr>ps := e\<rparr>, R_Eof)"
  using assms by (simp add: read_crit_def)

lemma read_crit_block:
  assumes "paulstretch_read E (ps p) = (e, None)" "\<not> closed p" "\<not> permitClosed p"
  shows "read_crit E p d =
    (p\<lparr>ps := e, writePermit := (if writePermit p < 1 then writePermit p + 1 else writePermit p)\<rparr>,
     R_Block)"
  using assms by (simp add: read_crit_def)

lemma read_crit_fault:
  assumes "paulstretch_read E (ps p) = (e, None)" "\<not> closed p" "permitClosed p"
  shows "read_crit E p d = (p\<lparr>ps := e\<rparr>, R_Fault SendOnClosedChannel)"
  using assms by (simp add: read_crit_def)

lemma reader_fetch_inv_reader:
  assumes base: "length (readBuf (obj s)) = C" "4 \<le> C"
    "\<forall>w \<in> set (emitted s). length w = C"
    "delivered s @ drop (readOff (obj s)) (readBuf (obj s)) = concat (emitted s)"
    and w: "rwait_ok C s d"
    and sync: "permitClosed (obj s) = closed (obj s)"
  shows "inv_reader C (reader_fetch E d s)"
proof -
  have wd: "d = r_dlen s" "0 < d" "readOff (obj s) = C" "r_off0 s = C"
    "length (emitted s) = r_emit0 s"
    using w by (simp_all add: rwait_ok_def)
  have del: "delivered s = concat (emitted s)" using base(4) wd(3) base(1) by simp
  obtain e r where rd: "paulstretch_read E (ps (obj s)) = (e, r)" by force
  show ?thesis
  proof (cases r)
    case (Some ptr)
    define out where "out = bytes_at ptr C"
    define bs where "bs = copy_out d out"
    have lo: "length out = C" by (simp add: out_def)
    have lb: "length bs = min d C" by (simp add: bs_def lo)
    have ne: "bs \<noteq> []" using lb wd(2) base(2) by (cases bs) auto
    show ?thesis
    proof (cases "length bs < C")
      case True
      define s' where "s' = s\<lparr>obj := (obj s)\<lparr>ps := e,
            readBuf := copy_at (readBuf (obj s)) (length bs) (drop (length bs) out),
            readOff := length bs\<rparr>,
          rthr := R_Ret bs None, emitted := emitted s @ [out], delivered := delivered s @ bs\<rparr>"
      have run: "reader_fetch E d s = s'"
        using rd Some True base(1)
        by (simp add: reader_fetch_def read_crit_got Let_def s'_def out_def bs_def)
      have bso: "bs = take (length bs) out" by (simp add: bs_def copy_out_def lo)
      have "drop (length bs) (readBuf (obj s')) = drop (length bs) out"
        using True base(1) lo by (simp add: s'_def copy_at_suffix)
      then have "delivered s' @ drop (readOff (obj s')) (readBuf (obj s')) = delivered s @ out"
        using bso by (simp add: s'_def) (metis append_take_drop_id)
      then have d': "delivered s' @ drop (readOff (obj s')) (readBuf (obj s')) = concat (emitted s')"
        using del by (simp add: s'_def)
      have r': "rret_ok C s' bs None"
        unfolding rret_ok_def using wd lb ne by (simp add: s'_def bs_def)
      have "inv_reader C s'"
        unfolding inv_reader_def using d' r' base True lo by (simp add: s'_def)
      then show ?thesis by (simp add: run)
    next
      case False
      define s' where "s' = s\<lparr>obj := (obj s)\<lparr>ps := e\<rparr>,
          rthr := R_Ret bs None, emitted := emitted s @ [out], delivered := delivered s @ bs\<rparr>"
      have run: "reader_fetch E d s = s'"
        using rd Some False base(1)
        by (simp add: reader_fetch_def read_crit_got Let_def s'_def out_def bs_def)
      have bso: "bs = out" using False lb lo by (simp add: bs_def copy_out_all)
      have d': "delivered s' @ drop (readOff (obj s')) (readBuf (obj s')) = concat (emitted s')"
        using del bso wd(3) base(1) by (simp add: s'_def)
      have r': "rret_ok C s' bs None"
        unfolding rret_ok_def using wd lb ne by (simp add: s'_def bs_def)
      have "inv_reader C s'"
        unfolding inv_reader_def using d' r' base wd(3) lo by (simp add: s'_def)
      then show ?thesis by (simp add: run)
    qed
  next
    case None
    show ?thesis
    proof (cases "closed (obj s)")
      case True
      have run: "reader_fetch E d s = s\<lparr>obj := (obj s)\<lparr>ps := e\<rparr>, rthr := R_Ret [] (Some EOF)\<rparr>"
        using rd None True by (simp add: reader_fetch_def read_crit_eof)
      have "rret_ok C (s\<lparr>obj := (obj s)\<lparr>ps := e\<rparr>, rthr := R_Ret [] (Some EOF)\<rparr>) [] (Some EOF)"
        unfolding rret_ok_def using wd True by simp
      then show ?thesis
        unfolding run inv_reader_def using base wd(3) by simp
    next
      case opn: False
      show ?thesis
      proof -
        have False: "\<not> permitClosed (obj s)" using opn sync by simp
        define q where "q = (obj s)\<lparr>ps := e, writePermit :=
            (if writePermit (obj s) < 1 then writePermit (obj s) + 1 else writePermit (obj s))\<rparr>"
        have run: "reader_fetch E d s = s\<lparr>obj := q, rthr := R_Wait d\<rparr>"
          using rd None opn False by (simp add: reader_fetch_def read_crit_block q_def)
        have "rwait_ok C (s\<lparr>obj := q, rthr := R_Wait d\<rparr>) d"
          using w by (simp add: rwait_ok_def q_def)
        then show ?thesis
          unfolding run inv_reader_def using base wd(3) by (simp add: q_def)
      qed
    qed
  qed
qed

lemma reader_call_inv_reader:
  assumes inv: "inv_reader C s" and sync: "permitClosed (obj s) = closed (obj s)"
  shows "inv_reader C (reader_call E d (s\<lparr>r_samples := b\<rparr>))"
proof -
  have base: "length (readBuf (obj s)) = C" "4 \<le> C" "readOff (obj s) \<le> C"
    "\<forall>w \<in> set (emitted s). length w = C"
    "delivered s @ drop (readOff (obj s)) (readBuf (obj s)) = concat (emitted s)"
    using inv by (simp_all add: inv_reader_def)
  define s1 where "s1 = s\<lparr>r_samples := b, r_dlen := d, r_emit0 := length (emitted s),
                           r_off0 := readOff (obj s)\<rparr>"
  show ?thesis
  proof (cases "readOff (obj s) < C")
    case True
    define bs where "bs = copy_out d (drop (readOff (obj s)) (readBuf (obj s)))"
    define s' where "s' = s1\<lparr>obj := (obj s)\<lparr>readOff := readOff (obj s) + length bs\<rparr>,
                              rthr := R_Ret bs None, delivered := delivered s @ bs\<rparr>"
    have run: "reader_call E d (s\<lparr>r_samples := b\<rparr>) = s'"
      using True base(1) by (simp add: reader_call_def read_fast_def Let_def s'_def s1_def bs_def)
    have lb: "length bs = min d (C - readOff (obj s))" using base(1) by (simp add: bs_def)
    have "bs @ drop (readOff (obj s) + length bs) (readBuf (obj s)) =
          drop (readOff (obj s)) (readBuf (obj s))"
      unfolding lb using copy_out_rejoin [of d "readOff (obj s)" "readBuf (obj s)"] base(1)
      by (simp add: bs_def)
    then have d': "delivered s' @ drop (readOff (obj s')) (readBuf (obj s')) = concat (emitted s')"
      using base(5) by (simp add: s'_def s1_def)
    have r': "rret_ok C s' bs None"
      unfolding rret_ok_def using True lb by (simp add: s'_def s1_def bs_def)
    have "inv_reader C s'"
      unfolding inv_reader_def using d' r' base True lb by (simp add: s'_def s1_def)
    then show ?thesis by (simp add: run)
  next
    case False
    then have off: "readOff (obj s) = C" using base(3) by simp
    show ?thesis
    proof (cases "d = 0")
      case True
      define s' where "s' = s1\<lparr>obj := obj s, rthr := R_Ret [] None, delivered := delivered s @ []\<rparr>"
      have run: "reader_call E d (s\<lparr>r_samples := b\<rparr>) = s'"
        using True off base(1) by (simp add: reader_call_def read_fast_def s'_def s1_def)
      have r': "rret_ok C s' [] None"
        unfolding rret_ok_def using True off by (simp add: s'_def s1_def)
      have "inv_reader C s'"
        unfolding inv_reader_def using r' base by (simp add: s'_def s1_def)
      then show ?thesis by (simp add: run)
    next
      case False
      have run: "reader_call E d (s\<lparr>r_samples := b\<rparr>) = reader_fetch E d s1"
        using False off base(1) by (simp add: reader_call_def read_fast_def s1_def)
      have "rwait_ok C s1 d" using False off by (simp add: rwait_ok_def s1_def)
      then have "inv_reader C (reader_fetch E d s1)"
        using base sync by (intro reader_fetch_inv_reader) (simp_all add: s1_def)
      then show ?thesis by (simp add: run)
    qed
  qed
qed

lemma reader_step_inv_reader:
  assumes inv: "inv_reader C s" and sync: "permitClosed (obj s) = closed (obj s)"
    and st: "reader_step E s = Some s'"
  shows "inv_reader C s'"
proof -
  obtain d where d: "rthr s = R_Woken d" and s': "s' = reader_fetch E d s"
    using st by (auto simp: reader_step_def split: rthread.splits)
  have "rwait_ok C s d" using inv d by (simp add: inv_reader_def)
  then show ?thesis
    unfolding s' using inv sync by (intro reader_fetch_inv_reader) (simp_all add: inv_reader_def)
qed

subsection \<open>What the writer leaves alone\<close>

lemma write_head_frame:
  assumes "write_head p data n = (p', r)"
  shows "readBuf p' = readBuf p" "readOff p' = readOff p" "closed p' = closed p"
    "permitClosed p' = permitClosed p" "writePermit p' = writePermit p" "ps p' = ps p"
  using assms
  by (auto simp: write_head_def Let_def split: if_splits)

lemma writer_loop_frame:
  "readBuf (obj (writer_loop data n s)) = readBuf (obj s)"
  "readOff (obj (writer_loop data n s)) = readOff (obj s)"
  "closed (obj (writer_loop data n s)) = closed (obj s)"
  "permitClosed (obj (writer_loop data n s)) = permitClosed (obj s)"
  "writePermit (obj (writer_loop data n s)) = writePermit (obj s)"
  "ps (obj (writer_loop data n s)) = ps (obj s)"
  "rthr (writer_loop data n s) = rthr s" "emitted (writer_loop data n s) = emitted s"
  "delivered (writer_loop data n s) = delivered s" "submitted (writer_loop data n s) = submitted s"
  "r_dlen (writer_loop data n s) = r_dlen s" "r_emit0 (writer_loop data n s) = r_emit0 s"
  "r_off0 (writer_loop data n s) = r_off0 s" "fed (writer_loop data n s) = fed s"
proof -
  obtain p r where wh: "write_head (obj s) data n = (p, r)" by force
  note f = write_head_frame [OF wh]
  show "readBuf (obj (writer_loop data n s)) = readBuf (obj s)"
    "readOff (obj (writer_loop data n s)) = readOff (obj s)"
    "closed (obj (writer_loop data n s)) = closed (obj s)"
    "permitClosed (obj (writer_loop data n s)) = permitClosed (obj s)"
    "writePermit (obj (writer_loop data n s)) = writePermit (obj s)"
    "ps (obj (writer_loop data n s)) = ps (obj s)"
    "rthr (writer_loop data n s) = rthr s" "emitted (writer_loop data n s) = emitted s"
    "delivered (writer_loop data n s) = delivered s"
    "submitted (writer_loop data n s) = submitted s"
    "r_dlen (writer_loop data n s) = r_dlen s" "r_emit0 (writer_loop data n s) = r_emit0 s"
    "r_off0 (writer_loop data n s) = r_off0 s" "fed (writer_loop data n s) = fed s"
    by (cases r; simp add: writer_loop_def wh f)+
qed

lemma writer_call_frame:
  "readBuf (obj (writer_call data s)) = readBuf (obj s)"
  "readOff (obj (writer_call data s)) = readOff (obj s)"
  "closed (obj (writer_call data s)) = closed (obj s)"
  "permitClosed (obj (writer_call data s)) = permitClosed (obj s)"
  "writePermit (obj (writer_call data s)) = writePermit (obj s)"
  "ps (obj (writer_call data s)) = ps (obj s)"
  "rthr (writer_call data s) = rthr s" "emitted (writer_call data s) = emitted s"
  "delivered (writer_call data s) = delivered s" "submitted (writer_call data s) = submitted s"
  "r_dlen (writer_call data s) = r_dlen s" "r_emit0 (writer_call data s) = r_emit0 s"
  "r_off0 (writer_call data s) = r_off0 s" "fed (writer_call data s) = fed s @ data"
  by (simp_all add: writer_call_def Let_def writer_loop_frame)

lemma recv_permit_frame:
  assumes "recv_permit p = Some p'"
  shows "readBuf p' = readBuf p" "readOff p' = readOff p" "closed p' = closed p"
    "permitClosed p' = permitClosed p" "writeBuf p' = writeBuf p" "writeOff p' = writeOff p"
    "ps p' = ps p"
  using assms by (auto simp: recv_permit_def split: if_splits)

lemma writer_step_cases:
  assumes "writer_step E s = Some s'"
  obtains (recv) buf rest n c p where "wthr s = W_Permit buf rest n c"
      "recv_permit (obj s) = Some p" "s' = s\<lparr>obj := p, wthr := W_Lock buf rest n c\<rparr>"
    | (abort) buf rest n c where "wthr s = W_Lock buf rest n c" "closed (obj s)"
      "s' = s\<lparr>wthr := W_Ret n (Some EOF), accepted := accepted s + n\<rparr>"
    | (fault) buf rest n c where "wthr s = W_Lock buf rest n c" "\<not> closed (obj s)"
      "length buf div 4 = 0" "s' = s\<lparr>panicked := Some IndexOutOfRange\<rparr>"
    | (submit) buf rest n c where "wthr s = W_Lock buf rest n c" "\<not> closed (obj s)"
      "length buf div 4 \<noteq> 0"
      "s' = writer_loop rest (n + c)
         (Signal (s\<lparr>obj := (obj s)\<lparr>ps := paulstretch_write E (ps (obj s))
                                          (take (length (writeBuf (obj s))) buf)\<rparr>,
                    submitted := submitted s @ [take (length (writeBuf (obj s))) buf]\<rparr>))"
proof (cases "wthr s")
  case W_Idle
  with assms show ?thesis by (simp add: writer_step_def)
next
  case (W_Ret n e)
  with assms show ?thesis by (simp add: writer_step_def)
next
  case (W_Permit buf rest n c)
  with assms recv show ?thesis
    by (auto simp: writer_step_def split: option.splits)
next
  case (W_Lock buf rest n c)
  show ?thesis
  proof (cases "closed (obj s)")
    case True
    with assms W_Lock abort show ?thesis by (simp add: writer_step_def write_crit_def)
  next
    case False
    show ?thesis
    proof (cases "length buf div 4 = 0")
      case True
      with assms W_Lock False fault show ?thesis by (simp add: writer_step_def write_crit_def)
    next
      case nz: False
      with assms W_Lock False submit show ?thesis
        by (simp add: writer_step_def write_crit_def Let_def)
    qed
  qed
qed

lemma writer_step_frame:
  assumes "writer_step E s = Some s'"
  shows "readBuf (obj s') = readBuf (obj s)" "readOff (obj s') = readOff (obj s)"
    "closed (obj s') = closed (obj s)" "permitClosed (obj s') = permitClosed (obj s)"
    "emitted s' = emitted s" "delivered s' = delivered s"
    "r_dlen s' = r_dlen s" "r_emit0 s' = r_emit0 s" "r_off0 s' = r_off0 s"
    "fed s' = fed s"
    "rthr s' = rthr s \<or> rthr s' = rthr (Signal s)"
proof -
  have "readBuf (obj s') = readBuf (obj s) \<and> readOff (obj s') = readOff (obj s) \<and>
    closed (obj s') = closed (obj s) \<and> permitClosed (obj s') = permitClosed (obj s) \<and>
    emitted s' = emitted s \<and> delivered s' = delivered s \<and>
    r_dlen s' = r_dlen s \<and> r_emit0 s' = r_emit0 s \<and> r_off0 s' = r_off0 s \<and>
    fed s' = fed s \<and>
    (rthr s' = rthr s \<or> rthr s' = rthr (Signal s))"
    using assms
  proof (cases rule: writer_step_cases)
    case (recv buf rest n c p)
    then show ?thesis using recv_permit_frame [OF recv(2)] by simp
  next
    case (abort buf rest n c)
    then show ?thesis by simp
  next
    case (fault buf rest n c)
    then show ?thesis by simp
  next
    case (submit buf rest n c)
    then show ?thesis by (simp add: writer_loop_frame Signal_rthr)
  qed
  then show "readBuf (obj s') = readBuf (obj s)" "readOff (obj s') = readOff (obj s)"
    "closed (obj s') = closed (obj s)" "permitClosed (obj s') = permitClosed (obj s)"
    "emitted s' = emitted s" "delivered s' = delivered s"
    "r_dlen s' = r_dlen s" "r_emit0 s' = r_emit0 s" "r_off0 s' = r_off0 s"
    "fed s' = fed s"
    "rthr s' = rthr s \<or> rthr s' = rthr (Signal s)"
    by blast+
qed

lemma writer_call_inv_reader:
  "inv_reader C s \<Longrightarrow> inv_reader C (writer_call d (s\<lparr>w_samples := b\<rparr>))"
  by (erule inv_reader_cong) (simp_all add: writer_call_frame)

lemma writer_step_inv_reader:
  assumes "inv_reader C s" "writer_step E s = Some s'"
  shows "inv_reader C s'"
  using assms(1) by (rule inv_reader_cong) (simp_all add: writer_step_frame [OF assms(2)])

lemma close_call_inv_reader:
  "inv_reader C s \<Longrightarrow> inv_reader C (close_call s)"
proof (erule inv_reader_cong)
  show "closed (obj s) \<longrightarrow> closed (obj (close_call s))"
    using close_call_closed [of s] by auto
  show "rthr (close_call s) = rthr s \<or> rthr (close_call s) = rthr (Signal s)"
    by (auto simp: close_call_def Close_def Signal_rthr split: sum.splits prod.splits if_splits)
qed (simp_all add: close_call_frame)

lemma panic_inv_reader:
  "inv_reader C s \<Longrightarrow> inv_reader C (s\<lparr>panicked := x\<rparr>)"
  by (erule inv_reader_cong) simp_all

subsection \<open>The permit and the wait queue\<close>

lemma inv_syncD:
  assumes "inv_sync s"
  shows "permitClosed (obj s) = closed (obj s)" "writePermit (obj s) \<le> 1"
    "rthr s = R_Wait d \<Longrightarrow> \<not> closed (obj s)"
    "rthr s = R_Wait d \<Longrightarrow> writePermit (obj s) = 1 \<or> holds_permit s"
  using assms by (auto simp: inv_sync_def split: rthread.splits)

lemma inv_syncI:
  assumes "permitClosed (obj s) = closed (obj s)" "writePermit (obj s) \<le> 1"
    and "\<And>d. rthr s = R_Wait d \<Longrightarrow> \<not> closed (obj s) \<and> (writePermit (obj s) = 1 \<or> holds_permit s)"
  shows "inv_sync s"
  using assms by (auto simp: inv_sync_def split: rthread.splits)

lemma writer_free_no_permit: "writer_free s \<Longrightarrow> \<not> holds_permit s"
  by (auto simp: writer_free_def holds_permit_def split: wthread.splits)

lemma writer_call_inv_sync:
  assumes inv: "inv_sync s" and free: "writer_free s"
  shows "inv_sync (writer_call d (s\<lparr>w_samples := b\<rparr>))"
proof (rule inv_syncI)
  note f = writer_call_frame [of d "s\<lparr>w_samples := b\<rparr>"]
  show "permitClosed (obj (writer_call d (s\<lparr>w_samples := b\<rparr>))) =
        closed (obj (writer_call d (s\<lparr>w_samples := b\<rparr>)))"
    using inv_syncD(1) [OF inv] by (simp add: f)
  show "writePermit (obj (writer_call d (s\<lparr>w_samples := b\<rparr>))) \<le> 1"
    using inv_syncD(2) [OF inv] by (simp add: f)
  fix k assume "rthr (writer_call d (s\<lparr>w_samples := b\<rparr>)) = R_Wait k"
  then have w: "rthr s = R_Wait k" by (simp add: f)
  have "writePermit (obj s) = 1"
    using inv_syncD(4) [OF inv w] writer_free_no_permit [OF free] by simp
  then show "\<not> closed (obj (writer_call d (s\<lparr>w_samples := b\<rparr>))) \<and>
        (writePermit (obj (writer_call d (s\<lparr>w_samples := b\<rparr>))) = 1 \<or>
         holds_permit (writer_call d (s\<lparr>w_samples := b\<rparr>)))"
    using inv_syncD(3) [OF inv w] by (simp add: f)
qed

lemma Signal_not_waiting: "rthr (Signal s) \<noteq> R_Wait d"
  by (simp add: Signal_rthr split: rthread.splits)

lemma writer_step_inv_sync:
  assumes inv: "inv_sync s" and st: "writer_step E s = Some s'"
  shows "inv_sync s'"
  using st
proof (cases rule: writer_step_cases)
  case (recv buf rest n c p)
  show ?thesis
  proof (rule inv_syncI)
    show "permitClosed (obj s') = closed (obj s')"
      using inv_syncD(1) [OF inv] recv_permit_frame [OF recv(2)] by (simp add: recv(3))
    show "writePermit (obj s') \<le> 1"
      using inv_syncD(2) [OF inv] recv(2)
      by (auto simp: recv(3) recv_permit_def split: if_splits)
    fix d assume "rthr s' = R_Wait d"
    then have w: "rthr s = R_Wait d" by (simp add: recv(3))
    show "\<not> closed (obj s') \<and> (writePermit (obj s') = 1 \<or> holds_permit s')"
      using inv_syncD(3) [OF inv w] recv_permit_frame [OF recv(2)]
      by (simp add: recv(3) holds_permit_def)
  qed
next
  case (abort buf rest n c)
  show ?thesis
  proof (rule inv_syncI)
    show "permitClosed (obj s') = closed (obj s')" "writePermit (obj s') \<le> 1"
      using inv_syncD(1,2) [OF inv] by (simp_all add: abort(3))
    fix d assume "rthr s' = R_Wait d"
    then have w: "rthr s = R_Wait d" by (simp add: abort(3))
    show "\<not> closed (obj s') \<and> (writePermit (obj s') = 1 \<or> holds_permit s')"
      using inv_syncD(3) [OF inv w] abort(2) by simp
  qed
next
  case (fault buf rest n c)
  show ?thesis
  proof (rule inv_syncI)
    show "permitClosed (obj s') = closed (obj s')" "writePermit (obj s') \<le> 1"
      using inv_syncD(1,2) [OF inv] by (simp_all add: fault(4))
    fix d assume "rthr s' = R_Wait d"
    then have w: "rthr s = R_Wait d" by (simp add: fault(4))
    show "\<not> closed (obj s') \<and> (writePermit (obj s') = 1 \<or> holds_permit s')"
      using inv_syncD(3,4) [OF inv w] by (simp add: fault(4) holds_permit_def)
  qed
next
  case (submit buf rest n c)
  show ?thesis
  proof (rule inv_syncI)
    show "permitClosed (obj s') = closed (obj s')" "writePermit (obj s') \<le> 1"
      using inv_syncD(1,2) [OF inv] by (simp_all add: submit(4) writer_loop_frame)
    fix d assume "rthr s' = R_Wait d"
    then have False
      by (simp add: submit(4) writer_loop_frame Signal_not_waiting)
    then show "\<not> closed (obj s') \<and> (writePermit (obj s') = 1 \<or> holds_permit s')" ..
  qed
qed

lemma reader_fetch_cases:
  assumes sync: "permitClosed (obj s) = closed (obj s)"
  obtains (got) p bs out where "reader_fetch E d s =
        s\<lparr>obj := p, rthr := R_Ret bs None,
          emitted := emitted s @ [out], delivered := delivered s @ bs\<rparr>"
      "writePermit p = writePermit (obj s)"
    | (eof) p where "closed (obj s)" "reader_fetch E d s = s\<lparr>obj := p, rthr := R_Ret [] (Some EOF)\<rparr>"
      "writePermit p = writePermit (obj s)"
    | (block) p where "\<not> closed (obj s)" "reader_fetch E d s = s\<lparr>obj := p, rthr := R_Wait d\<rparr>"
      "writePermit p = (if writePermit (obj s) < 1 then writePermit (obj s) + 1 else writePermit (obj s))"
proof -
  obtain e r where rd: "paulstretch_read E (ps (obj s)) = (e, r)" by force
  show ?thesis
  proof (cases r)
    case (Some ptr)
    define out where "out = bytes_at ptr (length (readBuf (obj s)))"
    define bs where "bs = copy_out d out"
    note rc = read_crit_got [OF rd [unfolded Some], of d, unfolded Let_def,
        folded out_def, folded bs_def]
    show ?thesis
    proof (cases "length bs < length (readBuf (obj s))")
      case True
      show ?thesis
        by (rule got [where out = out and bs = bs and
              p = "(obj s)\<lparr>ps := e, readBuf := copy_at (readBuf (obj s)) (length bs)
                    (drop (length bs) out), readOff := length bs\<rparr>"])
           (simp_all add: reader_fetch_def rc True)
    next
      case False
      show ?thesis
        by (rule got [where out = out and bs = bs and p = "(obj s)\<lparr>ps := e\<rparr>"])
           (simp_all add: reader_fetch_def rc False)
    qed
  next
    case None
    show ?thesis
    proof (cases "closed (obj s)")
      case True
      show ?thesis
        by (rule eof [OF True, where p = "(obj s)\<lparr>ps := e\<rparr>"])
           (simp_all add: reader_fetch_def read_crit_eof [OF rd [unfolded None] True])
    next
      case False
      then have npc: "\<not> permitClosed (obj s)" using sync by simp
      show ?thesis
        by (rule block [OF False, where p = "(obj s)\<lparr>ps := e, writePermit :=
                (if writePermit (obj s) < 1 then writePermit (obj s) + 1
                 else writePermit (obj s))\<rparr>"])
           (simp_all add: reader_fetch_def read_crit_block [OF rd [unfolded None] False npc])
    qed
  qed
qed

lemma reader_fetch_inv_sync:
  assumes inv: "inv_sync s"
  shows "inv_sync (reader_fetch E d s)"
proof -
  note f = reader_fetch_frame [of E d s]
  note a = inv_syncD [OF inv]
  from a(1) show ?thesis
  proof (cases rule: reader_fetch_cases [where E = E and d = d])
    case (got p bs out)
    show ?thesis
    proof (rule inv_syncI)
      show "permitClosed (obj (reader_fetch E d s)) = closed (obj (reader_fetch E d s))"
        using a(1) by (simp add: f)
      show "writePermit (obj (reader_fetch E d s)) \<le> 1" using a(2) got by simp
      fix k assume "rthr (reader_fetch E d s) = R_Wait k"
      then show "\<not> closed (obj (reader_fetch E d s)) \<and>
        (writePermit (obj (reader_fetch E d s)) = 1 \<or> holds_permit (reader_fetch E d s))"
        using got by simp
    qed
  next
    case (eof p)
    show ?thesis
    proof (rule inv_syncI)
      show "permitClosed (obj (reader_fetch E d s)) = closed (obj (reader_fetch E d s))"
        using a(1) by (simp add: f)
      show "writePermit (obj (reader_fetch E d s)) \<le> 1" using a(2) eof by simp
      fix k assume "rthr (reader_fetch E d s) = R_Wait k"
      then show "\<not> closed (obj (reader_fetch E d s)) \<and>
        (writePermit (obj (reader_fetch E d s)) = 1 \<or> holds_permit (reader_fetch E d s))"
        using eof by simp
    qed
  next
    case (block p)
    show ?thesis
    proof (rule inv_syncI)
      show "permitClosed (obj (reader_fetch E d s)) = closed (obj (reader_fetch E d s))"
        using a(1) by (simp add: f)
      show "writePermit (obj (reader_fetch E d s)) \<le> 1" using a(2) block by simp
      fix k assume "rthr (reader_fetch E d s) = R_Wait k"
      have "writePermit (obj (reader_fetch E d s)) = 1" using a(2) block by simp
      then show "\<not> closed (obj (reader_fetch E d s)) \<and>
        (writePermit (obj (reader_fetch E d s)) = 1 \<or> holds_permit (reader_fetch E d s))"
        using block(1) by (simp add: f)
    qed
  qed
qed

lemma inv_sync_cong:
  assumes inv: "inv_sync s"
    and eqs: "permitClosed (obj s') = permitClosed (obj s)" "closed (obj s') = closed (obj s)"
      "writePermit (obj s') = writePermit (obj s)" "wthr s' = wthr s"
    and thr: "\<And>d. rthr s' = R_Wait d \<Longrightarrow> rthr s = R_Wait d"
  shows "inv_sync s'"
proof (rule inv_syncI)
  show "permitClosed (obj s') = closed (obj s')" "writePermit (obj s') \<le> 1"
    using inv_syncD(1,2) [OF inv] by (simp_all add: eqs)
  fix d assume "rthr s' = R_Wait d"
  then have w: "rthr s = R_Wait d" by (rule thr)
  show "\<not> closed (obj s') \<and> (writePermit (obj s') = 1 \<or> holds_permit s')"
    using inv_syncD(3,4) [OF inv w] by (simp add: eqs holds_permit_def)
qed

lemma reader_call_inv_sync:
  assumes inv: "inv_sync s" and free: "reader_free s"
  shows "inv_sync (reader_call E d (s\<lparr>r_samples := b\<rparr>))"
proof -
  define s1 where "s1 = s\<lparr>r_samples := b, r_dlen := d, r_emit0 := length (emitted s),
                           r_off0 := readOff (obj s)\<rparr>"
  have i1: "inv_sync s1" using inv by (rule inv_sync_cong) (simp_all add: s1_def)
  show ?thesis
  proof (cases "read_fast (obj s) d")
    case None
    then have "reader_call E d (s\<lparr>r_samples := b\<rparr>) = reader_fetch E d s1"
      by (simp add: reader_call_def s1_def)
    then show ?thesis using reader_fetch_inv_sync [OF i1] by simp
  next
    case (Some pb)
    obtain p bs where pb: "pb = (p, bs)" by force
    have p: "permitClosed p = permitClosed (obj s)" "closed p = closed (obj s)"
      "writePermit p = writePermit (obj s)"
      using Some unfolding pb by (auto simp: read_fast_def Let_def split: if_splits)
    have run: "reader_call E d (s\<lparr>r_samples := b\<rparr>) =
        s1\<lparr>obj := p, rthr := R_Ret bs None, delivered := delivered s @ bs\<rparr>"
      using Some by (simp add: reader_call_def s1_def pb)
    show ?thesis unfolding run using i1 by (rule inv_sync_cong) (simp_all add: p s1_def)
  qed
qed

lemma reader_step_inv_sync:
  assumes "inv_sync s" "reader_step E s = Some s'"
  shows "inv_sync s'"
proof -
  obtain d where "s' = reader_fetch E d s"
    using assms(2) by (auto simp: reader_step_def split: rthread.splits)
  then show ?thesis using reader_fetch_inv_sync [OF assms(1)] by simp
qed

lemma close_call_first:
  assumes "\<not> closed (obj s)" "\<not> permitClosed (obj s)"
  shows "close_call s = Signal (s\<lparr>obj := (obj s)\<lparr>closed := True, permitClosed := True\<rparr>\<rparr>)"
  using assms by (simp add: close_call_def Close_def)

lemma close_call_again:
  assumes "closed (obj s)"
  shows "close_call s = s"
  using assms by (simp add: close_call_def Close_def)

lemma close_call_inv_sync:
  assumes inv: "inv_sync s"
  shows "inv_sync (close_call s)"
proof (cases "closed (obj s)")
  case True
  then show ?thesis using inv by (simp add: close_call_again)
next
  case False
  then have npc: "\<not> permitClosed (obj s)" using inv_syncD(1) [OF inv] by simp
  show ?thesis
    unfolding close_call_first [OF False npc]
  proof (rule inv_syncI)
    fix d assume "rthr (Signal (s\<lparr>obj := (obj s)\<lparr>closed := True, permitClosed := True\<rparr>\<rparr>)) = R_Wait d"
    then have False by (simp add: Signal_not_waiting)
    then show "\<not> closed (obj (Signal (s\<lparr>obj := (obj s)\<lparr>closed := True, permitClosed := True\<rparr>\<rparr>))) \<and>
       (writePermit (obj (Signal (s\<lparr>obj := (obj s)\<lparr>closed := True, permitClosed := True\<rparr>\<rparr>))) = 1 \<or>
        holds_permit (Signal (s\<lparr>obj := (obj s)\<lparr>closed := True, permitClosed := True\<rparr>\<rparr>)))" ..
  qed (use inv_syncD(2) [OF inv] in simp_all)
qed

lemma panic_inv_sync:
  "inv_sync s \<Longrightarrow> inv_sync (s\<lparr>panicked := x\<rparr>)"
  by (erule inv_sync_cong) simp_all

subsection \<open>Every step keeps the invariant\<close>

lemma INV_D:
  assumes "INV C s"
  shows "inv_writer C s" "inv_reader C s" "inv_sync s"
  using assms by (simp_all add: INV_def)

lemma step_INV:
  assumes inv: "INV C s" and st: "step E ev s = Some s'"
  shows "INV C s'"
proof -
  note i = INV_D [OF inv]
  note pc = inv_syncD(1) [OF i(3)]
  have np: "panicked s = None" using st by (simp split: if_splits)
  show ?thesis
  proof (cases ev)
    case (WriteCall d)
    then have free: "writer_free s" and s': "s' = writer_call d (s\<lparr>w_samples := False\<rparr>)"
      using st np by (simp_all split: if_splits)
    show ?thesis
      unfolding INV_def s'
      using writer_call_inv_writer [OF i(1) free] writer_call_inv_reader [OF i(2)]
        writer_call_inv_sync [OF i(3) free] by simp
  next
    case (WriteSamplesCall ss)
    then have free: "writer_free s" using st np by (simp split: if_splits)
    show ?thesis
    proof (cases "ss = []")
      case True
      then have s': "s' = s\<lparr>panicked := Some IndexOutOfRange\<rparr>"
        using st np free WriteSamplesCall by simp
      show ?thesis
        unfolding INV_def s'
        using panic_inv_writer [OF i(1)] panic_inv_reader [OF i(2)] panic_inv_sync [OF i(3)]
        by simp
    next
      case False
      then have s': "s' = writer_call (samples_bytes ss) (s\<lparr>w_samples := True\<rparr>)"
        using st np free WriteSamplesCall by simp
      show ?thesis
        unfolding INV_def s'
        using writer_call_inv_writer [OF i(1) free] writer_call_inv_reader [OF i(2)]
          writer_call_inv_sync [OF i(3) free] by simp
    qed
  next
    case WriterStep
    then have ws: "writer_step E s = Some s'" using st np by simp
    show ?thesis
      unfolding INV_def
      using writer_step_inv_writer [OF i(1) ws] writer_step_inv_reader [OF i(2) ws]
        writer_step_inv_sync [OF i(3) ws] by simp
  next
    case (ReadCall d)
    then have free: "reader_free s" and s': "s' = reader_call E d (s\<lparr>r_samples := False\<rparr>)"
      using st np by (simp_all split: if_splits)
    show ?thesis
      unfolding INV_def s'
      using reader_call_inv_writer [OF i(1)] reader_call_inv_reader [OF i(2) pc]
        reader_call_inv_sync [OF i(3) free] by simp
  next
    case (ReadSamplesCall len)
    then have free: "reader_free s" using st np by (simp split: if_splits)
    show ?thesis
    proof (cases "len = 0")
      case True
      then have s': "s' = s\<lparr>panicked := Some IndexOutOfRange\<rparr>"
        using st np free ReadSamplesCall by simp
      show ?thesis
        unfolding INV_def s'
        using panic_inv_writer [OF i(1)] panic_inv_reader [OF i(2)] panic_inv_sync [OF i(3)]
        by simp
    next
      case False
      then have s': "s' = reader_call E (len * 4) (s\<lparr>r_samples := True\<rparr>)"
        using st np free ReadSamplesCall by simp
      show ?thesis
        unfolding INV_def s'
        using reader_call_inv_writer [OF i(1)] reader_call_inv_reader [OF i(2) pc]
          reader_call_inv_sync [OF i(3) free] by simp
    qed
  next
    case ReaderStep
    then have rs: "reader_step E s = Some s'" using st np by simp
    show ?thesis
      unfolding INV_def
      using reader_step_inv_writer [OF i(1) rs] reader_step_inv_reader [OF i(2) pc rs]
        reader_step_inv_sync [OF i(3) rs] by simp
  next
    case CloseCall
    then have s': "s' = close_call s" using st np by simp
    show ?thesis
      unfolding INV_def s'
      using close_call_inv_writer [OF i(1)] close_call_inv_reader [OF i(2)]
        close_call_inv_sync [OF i(3)] by simp
  qed
qed

lemma run_INV:
  assumes "INV C s" "run E evs s = Some s'"
  shows "INV C s'"
  using assms
proof (induction evs arbitrary: s)
  case Nil
  then show ?case by simp
next
  case (Cons ev evs)
  then obtain s1 where s1: "step E ev s = Some s1" and r: "run E evs s1 = Some s'"
    by (auto split: option.splits)
  show ?case using Cons.IH [OF step_INV [OF Cons.prems(1) s1] r] .
qed

subsection \<open>The adapter as constructed\<close>

lemma go_int_small: "0 \<le> x \<Longrightarrow> x < 2 ^ 63 \<Longrightarrow> go_int x = x"
  by (simp add: go_int_def)

lemma NewPaulstretch_ok:
  assumes "0 < ws" "ws < 2 ^ 61"
  shows "NewPaulstretch E sf ws =
     Inr \<lparr> ps = paulstretch_create E sf (nat ws),
           writeBuf = replicate (nat (4 * ws)) 0, writeOff = 0,
           readBuf = replicate (nat (4 * ws)) 0, readOff = nat (4 * ws),
           closed = False, writePermit = 1, permitClosed = False \<rparr>"
proof -
  have g: "go_int (ws * 4) = ws * 4" using assms by (intro go_int_small) simp_all
  have z: "size_t ws = nat ws" using assms by (simp add: size_t_def)
  show ?thesis using assms by (simp add: NewPaulstretch_def g z Let_def mult.commute)
qed

lemma start_INV:
  assumes new: "NewPaulstretch E sf ws = Inr p" and ws: "0 < ws" "ws < 2 ^ 61"
  shows "INV (nat (4 * ws)) (start p)"
proof -
  have p: "p = \<lparr> ps = paulstretch_create E sf (nat ws),
           writeBuf = replicate (nat (4 * ws)) 0, writeOff = 0,
           readBuf = replicate (nat (4 * ws)) 0, readOff = nat (4 * ws),
           closed = False, writePermit = 1, permitClosed = False \<rparr>"
    using new NewPaulstretch_ok [OF ws, of E sf] by simp
  have C: "4 \<le> nat (4 * ws)" using ws by simp
  have "inv_writer (nat (4 * ws)) (start p)"
    using C by (simp add: inv_writer_def wrest_ok_def start_def p)
  moreover have "inv_reader (nat (4 * ws)) (start p)"
    using C by (simp add: inv_reader_def start_def p)
  moreover have "inv_sync (start p)"
    by (simp add: inv_sync_def start_def p)
  ultimately show ?thesis by (simp add: INV_def)
qed

lemma reach_INV:
  assumes "NewPaulstretch E sf ws = Inr p" "0 < ws" "ws < 2 ^ 61"
    and "run E evs (start p) = Some s"
  shows "INV (nat (4 * ws)) s"
  using run_INV [OF start_INV [OF assms(1-3)] assms(4)] .

section \<open>The claims\<close>

lemma demo_new: "NewPaulstretch echo_engine 10 1 = Inr demo_adapter"
  by (simp add: NewPaulstretch_def echo_engine_def demo_adapter_def go_int_def size_t_def
      Let_def eval_nat_numeral)

lemma demo_runs: "run echo_engine demo_events (start demo_adapter) \<noteq> None"
  by code_simp

subsection \<open>C7: Write after Close\<close>

text \<open>
  C7. A \<open>Write\<close> call that starts on a closed adapter returns at once, within the call
  itself and without standing at the permit or the lock, with 0 bytes accepted and
  end of stream; no window goes to the engine, and the struct (the input staging buffer,
  its offset, the permit) is as it was.
\<close>

theorem write_after_close:
  assumes "closed (obj s)" "writer_free s" "panicked s = None"
  shows "\<exists>s'. step E (WriteCall data) s = Some s' \<and>
           wthr s' = W_Ret 0 (Some EOF) \<and> write_result s' = Some (0, Some EOF) \<and>
           writer_free s' \<and> panicked s' = None \<and>
           submitted s' = submitted s \<and> obj s' = obj s \<and> rthr s' = rthr s \<and>
           accepted s' = accepted s"
  using assms
  by (simp add: writer_call_def Let_def write_result_def writer_free_def)

theorem write_after_close_witness:
  "write_result (the (step echo_engine (WriteCall [1, 2, 3, 4, 5])
      (the (step echo_engine CloseCall (start demo_adapter))))) = Some (0, Some EOF)"
proof -
  define s where "s = the (step echo_engine CloseCall (start demo_adapter))"
  have h: "closed (obj s)" "writer_free s" "panicked s = None"
    unfolding s_def by code_simp+
  from write_after_close [OF h, of echo_engine "[1, 2, 3, 4, 5]"]
  show ?thesis unfolding s_def by auto
qed

subsection \<open>C9: empty sample slices\<close>

text \<open>
  C9. \<open>WriteSamples\<close> and \<open>ReadSamples\<close> on an empty sample slice panic with an index
  out of range at \<open>&samples[0]\<close>: the call hands no (count, error) pair back, nothing
  reaches the engine, and the program does not go on.
\<close>

theorem samples_empty_panics:
  assumes "panicked s = None"
  shows "(writer_free s \<longrightarrow>
            step E (WriteSamplesCall []) s = Some (s\<lparr>panicked := Some IndexOutOfRange\<rparr>)) \<and>
         (reader_free s \<longrightarrow>
            step E (ReadSamplesCall 0) s = Some (s\<lparr>panicked := Some IndexOutOfRange\<rparr>)) \<and>
         submitted (s\<lparr>panicked := Some IndexOutOfRange\<rparr>) = submitted s \<and>
         write_result (s\<lparr>panicked := Some IndexOutOfRange\<rparr>) = None \<and>
         read_result (s\<lparr>panicked := Some IndexOutOfRange\<rparr>) = None \<and>
         (\<forall>ev. step E ev (s\<lparr>panicked := Some IndexOutOfRange\<rparr>) = None)"
  using assms by (simp add: write_result_def read_result_def)

theorem samples_empty_panics_witness:
  "step echo_engine (WriteSamplesCall []) (start demo_adapter) =
     Some ((start demo_adapter)\<lparr>panicked := Some IndexOutOfRange\<rparr>) \<and>
   step echo_engine (ReadSamplesCall 0) (start demo_adapter) =
     Some ((start demo_adapter)\<lparr>panicked := Some IndexOutOfRange\<rparr>) \<and>
   write_result ((start demo_adapter)\<lparr>panicked := Some IndexOutOfRange\<rparr>) = None \<and>
   read_result ((start demo_adapter)\<lparr>panicked := Some IndexOutOfRange\<rparr>) = None"
proof -
  have h: "panicked (start demo_adapter) = None" "writer_free (start demo_adapter)"
    "reader_free (start demo_adapter)"
    by (simp_all add: start_def writer_free_def reader_free_def)
  from samples_empty_panics [OF h(1), of echo_engine] h(2,3) show ?thesis by blast
qed

subsection \<open>C4: construction\<close>

text \<open>
  C4 as stated: whenever the engine cannot be created, \<open>NewPaulstretch\<close> fails and returns
  no adapter. It is false: with an engine whose creation yields the null handle, the
  call \<open>NewPaulstretch(10, 128)\<close> returns an adapter that holds the null handle.
\<close>

theorem construction_error_counterexample:
  "paulstretch_create null_engine 10 (size_t 128) = None \<and>
   NewPaulstretch null_engine 10 128 =
     Inr \<lparr> ps = None, writeBuf = replicate 512 0, writeOff = 0,
           readBuf = replicate 512 0, readOff = 512,
           closed = False, writePermit = 1, permitClosed = False \<rparr>"
  by (simp add: NewPaulstretch_def null_engine_def go_int_def size_t_def Let_def)

text \<open>
  C4 as amended. \<open>NewPaulstretch\<close> has no error result and does not look at the handle:
  whenever \<open>windowSize * 4\<close> is not negative as a Go \<open>int\<close>, it returns an adapter that
  holds whatever handle \<open>paulstretch_create\<close> gave, open, with one permit and empty
  staging buffers of \<open>windowSize * 4\<close> bytes; its only failure is the panic of \<open>make\<close> on a
  negative length.
\<close>

theorem construction_always_returns:
  "(0 \<le> go_int (windowSize * 4) \<longrightarrow>
      (\<exists>p. NewPaulstretch E stretchFactor windowSize = Inr p \<and>
           ps p = paulstretch_create E stretchFactor (size_t windowSize) \<and>
           length (writeBuf p) = nat (go_int (windowSize * 4)) \<and>
           length (readBuf p) = nat (go_int (windowSize * 4)) \<and>
           writeOff p = 0 \<and> readOff p = length (readBuf p) \<and>
           \<not> closed p \<and> writePermit p = 1 \<and> \<not> permitClosed p)) \<and>
   (go_int (windowSize * 4) < 0 \<longrightarrow>
      NewPaulstretch E stretchFactor windowSize = Inl MakeSliceLen)"
  by (simp add: NewPaulstretch_def Let_def)

theorem construction_always_returns_witness:
  "\<exists>p. NewPaulstretch null_engine 10 128 = Inr p \<and> ps p = None \<and>
       length (writeBuf p) = 512 \<and> \<not> closed p \<and> writePermit p = 1"
proof -
  have g: "go_int (128 * 4) = 512" by (simp add: go_int_def)
  have c: "paulstretch_create null_engine 10 (size_t 128) = None"
    by (simp add: null_engine_def)
  from construction_always_returns [of 128 null_engine 10]
  show ?thesis unfolding g c by auto
qed

subsection \<open>C1: windows submitted\<close>

lemma concat_windows_length:
  "\<forall>w \<in> set ws. length w = C \<Longrightarrow> length (concat ws) = length ws * C"
  by (induction ws) simp_all

lemma concat_windows_nth:
  "\<forall>w \<in> set ws. length w = C \<Longrightarrow> i < length ws \<Longrightarrow>
   take C (drop (i * C) (concat ws)) = ws ! i"
proof (induction ws arbitrary: i)
  case Nil
  then show ?case by simp
next
  case (Cons w ws)
  show ?case
  proof (cases i)
    case 0
    then show ?thesis using Cons.prems by simp
  next
    case (Suc j)
    have "drop (Suc j * C) (w @ concat ws) = drop (j * C) (concat ws)"
      using Cons.prems(1) by simp
    then show ?thesis using Cons.IH [of j] Cons.prems Suc by simp
  qed
qed

lemma writer_free_cases:
  assumes "writer_free s"
  obtains "wthr s = W_Idle" | n e where "wthr s = W_Ret n e"
  using assms by (auto simp: writer_free_def split: wthread.splits)

lemma inv_writer_free:
  assumes "inv_writer C s" "writer_free s"
  shows "wrest_ok C s"
  using assms(2,1) by (cases rule: writer_free_cases) (simp_all add: inv_writer_def)

text \<open>
  C1. After any run of the system (any chunking of the input into \<open>Write\<close> calls, any
  interleaving with the reader) in which the adapter is still open and every \<open>Write\<close>
  call has returned, if the arguments of the calls total \<open>k\<close> windows, then exactly \<open>k\<close>
  windows have been passed to \<open>paulstretch_write\<close>, and the \<open>i\<close>-th of them is the \<open>i\<close>-th
  window-sized slice of the concatenated input.
\<close>

theorem write_submits_windows:
  assumes "NewPaulstretch E stretchFactor windowSize = Inr p"
    and "0 < windowSize" "windowSize < 2 ^ 61"
    and "run E evs (start p) = Some s"
    and "\<not> closed (obj s)" "writer_free s"
    and "length (fed s) = k * nat (4 * windowSize)"
  shows "length (submitted s) = k \<and> concat (submitted s) = fed s \<and>
         (\<forall>i<k. submitted s ! i =
            take (nat (4 * windowSize)) (drop (i * nat (4 * windowSize)) (fed s)))"
proof -
  define C where "C = nat (4 * windowSize)"
  have inv: "inv_writer C s"
    using reach_INV [OF assms(1-4)] by (simp add: INV_def C_def)
  have C: "4 \<le> C" and subs: "\<forall>w \<in> set (submitted s). length w = C"
    using inv by (simp_all add: inv_writer_def)
  have r: "wrest_ok C s" using inv assms(6) by (rule inv_writer_free)
  have off: "writeOff (obj s) < C"
    and eq: "concat (submitted s) @ take (writeOff (obj s)) (writeBuf (obj s)) = fed s"
    using r assms(5) by (simp_all add: wrest_ok_def)
  have lw: "length (writeBuf (obj s)) = C" using inv by (simp add: inv_writer_def)
  have "length (concat (submitted s)) + writeOff (obj s) = length (fed s)"
    using arg_cong [OF eq, of length] off lw by simp
  then have len: "length (submitted s) * C + writeOff (obj s) = k * C"
    using concat_windows_length [OF subs] assms(7) by (simp add: C_def)
  have "(length (submitted s) * C + writeOff (obj s)) div C = length (submitted s)"
    using off by simp
  then have k: "length (submitted s) = k" using len C by simp
  then have "writeOff (obj s) = 0" using len by simp
  then have cat: "concat (submitted s) = fed s" using eq by simp
  have "\<forall>i<k. submitted s ! i = take C (drop (i * C) (fed s))"
    using concat_windows_nth [OF subs] k cat by simp
  then show ?thesis using k cat by (simp add: C_def)
qed

theorem write_submits_windows_witness:
  "length (submitted (the (run echo_engine demo_events (start demo_adapter)))) = 2 \<and>
   submitted (the (run echo_engine demo_events (start demo_adapter))) ! 1 =
     take 4 (drop 4 (fed (the (run echo_engine demo_events (start demo_adapter)))))"
proof -
  define s where "s = the (run echo_engine demo_events (start demo_adapter))"
  have r: "run echo_engine demo_events (start demo_adapter) = Some s"
    using demo_runs by (simp add: s_def)
  have h: "\<not> closed (obj s)" "writer_free s" "length (fed s) = 2 * nat (4 * 1)"
    unfolding s_def by code_simp+
  from write_submits_windows [OF demo_new _ _ r h]
  show ?thesis unfolding s_def by simp
qed

subsection \<open>C2: reassembly on the reader's side\<close>

text \<open>
  C2. After any run of the system (any sizes of the \<open>Read\<close> calls, any chunking on the
  writer's side, any interleaving), the bytes that the \<open>Read\<close> calls have returned, in a
  row, followed by what is still staged of the last window, are the windows obtained
  from \<open>paulstretch_read\<close>, in a row and in order; every such window has the window length;
  and once the staged window is drained, the bytes returned are exactly those windows.
\<close>

theorem read_reassembles_windows:
  assumes "NewPaulstretch E stretchFactor windowSize = Inr p"
    and "0 < windowSize" "windowSize < 2 ^ 61"
    and "run E evs (start p) = Some s"
  shows "delivered s @ drop (readOff (obj s)) (readBuf (obj s)) = concat (emitted s) \<and>
         (\<forall>w \<in> set (emitted s). length w = nat (4 * windowSize)) \<and>
         (readOff (obj s) = length (readBuf (obj s)) \<longrightarrow> delivered s = concat (emitted s))"
proof -
  have inv: "inv_reader (nat (4 * windowSize)) s"
    using reach_INV [OF assms] by (simp add: INV_def)
  then have a: "length (readBuf (obj s)) = nat (4 * windowSize)"
    "\<forall>w \<in> set (emitted s). length w = nat (4 * windowSize)"
    "delivered s @ drop (readOff (obj s)) (readBuf (obj s)) = concat (emitted s)"
    by (simp_all add: inv_reader_def)
  have "readOff (obj s) = length (readBuf (obj s)) \<longrightarrow> delivered s = concat (emitted s)"
    using a(3) by auto
  then show ?thesis using a by blast
qed

theorem read_reassembles_windows_witness:
  "delivered (the (run echo_engine demo_events (start demo_adapter))) @
     drop (readOff (obj (the (run echo_engine demo_events (start demo_adapter)))))
       (readBuf (obj (the (run echo_engine demo_events (start demo_adapter))))) =
   concat (emitted (the (run echo_engine demo_events (start demo_adapter)))) \<and>
   delivered (the (run echo_engine demo_events (start demo_adapter))) = [1, 2, 3, 4, 5, 6, 7]"
proof -
  define s where "s = the (run echo_engine demo_events (start demo_adapter))"
  have r: "run echo_engine demo_events (start demo_adapter) = Some s"
    using demo_runs by (simp add: s_def)
  have d: "delivered s = [1, 2, 3, 4, 5, 6, 7]" unfolding s_def by code_simp
  from read_reassembles_windows [OF demo_new _ _ r] d
  show ?thesis unfolding s_def by simp
qed

subsection \<open>C5: a Write interrupted by Close\<close>

text \<open>
  C5. When a \<open>Write\<close> call that has submitted at least one window returns end of stream
  (the adapter was closed while it stood at the permit), the count \<open>n\<close> it returns is the
  number of bytes of its argument that went into the windows it submitted: together with
  the bytes that earlier calls had staged (\<open>w_off0\<close>, counted by those calls) they fill
  these windows exactly. The engine has received the whole input so far except the
  uncounted rest of the argument, so nothing counted was dropped; and the counts returned
  by all calls add up to the bytes the engine has received, so nothing was counted twice.
\<close>

theorem write_interrupted_count:
  assumes "NewPaulstretch E stretchFactor windowSize = Inr p"
    and "0 < windowSize" "windowSize < 2 ^ 61"
    and "run E evs (start p) = Some s"
    and "wthr s = W_Ret n (Some EOF)"
    and "w_sub0 s < length (submitted s)"
  shows "closed (obj s) \<and> n \<le> length (w_arg s) \<and>
         n + w_off0 s = (length (submitted s) - w_sub0 s) * nat (4 * windowSize) \<and>
         concat (submitted s) @ drop n (w_arg s) = fed s \<and>
         accepted s = length (concat (submitted s)) \<and>
         (\<forall>w \<in> set (submitted s). length w = nat (4 * windowSize))"
proof -
  have inv: "inv_writer (nat (4 * windowSize)) s"
    using reach_INV [OF assms(1-4)] by (simp add: INV_def)
  then have "wret_ok (nat (4 * windowSize)) s n (Some EOF)"
    and subs: "\<forall>w \<in> set (submitted s). length w = nat (4 * windowSize)"
    using assms(5) by (simp_all add: inv_writer_def)
  then show ?thesis using assms(6) unfolding wret_ok_def by simp
qed

theorem write_interrupted_count_witness:
  "wthr (the (run echo_engine
       [WriteCall [1, 2], ReadCall 1, WriteCall [3, 4, 5, 6, 7, 8, 9, 10, 11], WriterStep,
        WriterStep, CloseCall, WriterStep, WriterStep] (start demo_adapter))) =
     W_Ret 2 (Some EOF) \<and>
   accepted (the (run echo_engine
       [WriteCall [1, 2], ReadCall 1, WriteCall [3, 4, 5, 6, 7, 8, 9, 10, 11], WriterStep,
        WriterStep, CloseCall, WriterStep, WriterStep] (start demo_adapter))) = 4 \<and>
   submitted (the (run echo_engine
       [WriteCall [1, 2], ReadCall 1, WriteCall [3, 4, 5, 6, 7, 8, 9, 10, 11], WriterStep,
        WriterStep, CloseCall, WriterStep, WriterStep] (start demo_adapter))) = [[1, 2, 3, 4]]"
proof -
  define evs where "evs = [WriteCall [1, 2], ReadCall 1,
      WriteCall [3, 4, 5, 6, 7, 8, 9, 10, (11::byte)], WriterStep,
      WriterStep, CloseCall, WriterStep, WriterStep]"
  define s where "s = the (run echo_engine evs (start demo_adapter))"
  have "run echo_engine evs (start demo_adapter) \<noteq> None" unfolding evs_def by code_simp
  then have r: "run echo_engine evs (start demo_adapter) = Some s" by (simp add: s_def)
  have h: "wthr s = W_Ret 2 (Some EOF)" "w_sub0 s < length (submitted s)"
    unfolding s_def evs_def by code_simp+
  have v: "w_off0 s = 2" "submitted s = [[1, 2, 3, 4]]"
    unfolding s_def evs_def by code_simp+
  from write_interrupted_count [OF demo_new _ _ r h] h(1) v
  show ?thesis unfolding s_def evs_def by simp
qed

subsection \<open>C8: Close\<close>

lemma closed_step_submitted:
  assumes "closed (obj s)" "step E ev s = Some s'"
  shows "submitted s' = submitted s \<and> closed (obj s')"
proof -
  have np: "panicked s = None" using assms(2) by (simp split: if_splits)
  show ?thesis
  proof (cases ev)
    case (WriteCall d)
    then show ?thesis using assms np
      by (auto simp: writer_call_frame split: if_splits)
  next
    case (WriteSamplesCall ss)
    then show ?thesis using assms np
      by (auto simp: writer_call_frame split: if_splits)
  next
    case WriterStep
    then have ws: "writer_step E s = Some s'" using assms np by simp
    then show ?thesis
    proof (cases rule: writer_step_cases)
      case (recv buf rest n c p)
      then show ?thesis using assms(1) recv_permit_frame [OF recv(2)] by simp
    next
      case (abort buf rest n c)
      then show ?thesis using assms(1) by simp
    next
      case (fault buf rest n c)
      then show ?thesis using assms(1) by simp
    next
      case (submit buf rest n c)
      then show ?thesis using assms(1) by simp
    qed
  next
    case (ReadCall d)
    then show ?thesis using assms np
      by (auto simp: reader_call_frame split: if_splits)
  next
    case (ReadSamplesCall len)
    then show ?thesis using assms np
      by (auto simp: reader_call_frame split: if_splits)
  next
    case ReaderStep
    then obtain d where "s' = reader_fetch E d s"
      using assms np by (auto simp: reader_step_def split: rthread.splits)
    then show ?thesis using assms(1) by (simp add: reader_fetch_frame)
  next
    case CloseCall
    then show ?thesis using assms np by (auto simp: close_call_again)
  qed
qed

lemma recv_permit_closed: "permitClosed p \<Longrightarrow> recv_permit p \<noteq> None"
  by (auto simp: recv_permit_def)

lemma step_close:
  "step E CloseCall s = (if panicked s \<noteq> None then None else Some (close_call s))"
  by simp

text \<open>
  C8. In every state the system can reach, \<open>Close\<close> does not panic and returns nil. The
  first call sets \<open>closed\<close>, closes the permit channel, so that a receive on it no longer
  blocks and no step submits a window any more, and moves a reader out of the wait
  queue. A call on a closed adapter changes nothing at all.
\<close>

theorem close_idempotent:
  assumes "NewPaulstretch E stretchFactor windowSize = Inr p"
    and "0 < windowSize" "windowSize < 2 ^ 61"
    and "run E evs (start p) = Some s"
    and "panicked s = None"
  shows "\<exists>s1. step E CloseCall s = Some s1 \<and> panicked s1 = None \<and>
           Close (obj s) = Inr (obj s1, \<not> closed (obj s), None) \<and>
           closed (obj s1) \<and> permitClosed (obj s1) \<and> recv_permit (obj s1) \<noteq> None \<and>
           (\<forall>d. rthr s1 \<noteq> R_Wait d) \<and>
           (\<forall>d. rthr s = R_Wait d \<longrightarrow> rthr s1 = R_Woken d) \<and>
           (\<forall>ev s2. step E ev s1 = Some s2 \<longrightarrow> submitted s2 = submitted s1) \<and>
           (closed (obj s) \<longrightarrow> s1 = s) \<and>
           Close (obj s1) = Inr (obj s1, False, None) \<and>
           step E CloseCall s1 = Some s1"
proof -
  have sync: "inv_sync s" using reach_INV [OF assms(1-4)] by (simp add: INV_def)
  note a = inv_syncD [OF sync]
  show ?thesis
  proof (cases "closed (obj s)")
    case True
    have pc: "permitClosed (obj s)" using a(1) True by simp
    have nw: "\<forall>d. rthr s \<noteq> R_Wait d" using a(3) True by blast
    have sub: "\<forall>ev s2. step E ev s = Some s2 \<longrightarrow> submitted s2 = submitted s"
      using closed_step_submitted [OF True] by blast
    show ?thesis
      using True pc nw sub assms(5)
      by (intro exI [of _ s])
         (simp add: step_close close_call_again Close_def recv_permit_closed del: step.simps)
  next
    case False
    have npc: "\<not> permitClosed (obj s)" using a(1) False by simp
    define s1 where "s1 = Signal (s\<lparr>obj := (obj s)\<lparr>closed := True, permitClosed := True\<rparr>\<rparr>)"
    have run: "close_call s = s1" using close_call_first [OF False npc] by (simp add: s1_def)
    have cl: "closed (obj s1)" by (simp add: s1_def)
    have sub: "\<forall>ev s2. step E ev s1 = Some s2 \<longrightarrow> submitted s2 = submitted s1"
      using closed_step_submitted [OF cl] by blast
    have wake: "\<forall>d. rthr s = R_Wait d \<longrightarrow> rthr s1 = R_Woken d"
      by (simp add: s1_def Signal_rthr)
    have nw: "\<forall>d. rthr s1 \<noteq> R_Wait d" by (simp add: s1_def Signal_not_waiting)
    have again: "close_call s1 = s1" using cl by (rule close_call_again)
    have p1: "panicked s1 = None" using assms(5) by (simp add: s1_def)
    have c1: "step E CloseCall s = Some s1"
      using assms(5) run by (simp add: step_close del: step.simps)
    have c2: "Close (obj s) = Inr (obj s1, \<not> closed (obj s), None)"
      using False npc by (simp add: Close_def s1_def)
    have c3: "permitClosed (obj s1)" by (simp add: s1_def)
    have c4: "Close (obj s1) = Inr (obj s1, False, None)" using cl by (simp add: Close_def)
    have c5: "step E CloseCall s1 = Some s1"
      using p1 again by (simp add: step_close del: step.simps)
    show ?thesis
      using c1 p1 c2 cl c3 recv_permit_closed [OF c3] nw wake sub False c4 c5 by blast
  qed
qed

theorem close_idempotent_witness:
  "step echo_engine CloseCall (the (run echo_engine [ReadCall 1] (start demo_adapter))) =
     Some (the (run echo_engine [ReadCall 1, CloseCall] (start demo_adapter))) \<and>
   rthr (the (run echo_engine [ReadCall 1] (start demo_adapter))) = R_Wait 1 \<and>
   rthr (the (run echo_engine [ReadCall 1, CloseCall] (start demo_adapter))) = R_Woken 1 \<and>
   step echo_engine CloseCall (the (run echo_engine [ReadCall 1, CloseCall] (start demo_adapter))) =
     Some (the (run echo_engine [ReadCall 1, CloseCall] (start demo_adapter)))"
proof -
  define s where "s = the (run echo_engine [ReadCall 1] (start demo_adapter))"
  define t where "t = the (run echo_engine [ReadCall 1, CloseCall] (start demo_adapter))"
  have "run echo_engine [ReadCall 1] (start demo_adapter) \<noteq> None" by code_simp
  then have r: "run echo_engine [ReadCall 1] (start demo_adapter) = Some s" by (simp add: s_def)
  have np: "panicked s = None" and w: "rthr s = R_Wait 1" unfolding s_def by code_simp+
  have st: "step echo_engine CloseCall s = Some t"
    unfolding s_def t_def by code_simp
  have w': "rthr t = R_Woken 1" unfolding t_def by code_simp
  from close_idempotent [OF demo_new _ _ r np] st w w'
  show ?thesis unfolding s_def t_def by (auto simp del: step.simps)
qed

subsection \<open>C3: the writer and the reader do not block each other\<close>

lemma step_writer:
  "step E WriterStep s = (if panicked s \<noteq> None then None else writer_step E s)"
  by simp

lemma step_reader:
  "step E ReaderStep s = (if panicked s \<noteq> None then None else reader_step E s)"
  by simp

lemma step_read:
  "step E (ReadCall d) s =
     (if panicked s \<noteq> None then None
      else if reader_free s then Some (reader_call E d (s\<lparr>r_samples := False\<rparr>)) else None)"
  by simp

lemma reader_free_cases:
  assumes "reader_free s"
  obtains "rthr s = R_Idle" | bs e where "rthr s = R_Ret bs e"
  using assms by (auto simp: reader_free_def split: rthread.splits)

lemma writer_lock_moves:
  assumes "wthr s = W_Lock buf rest n c"
  shows "writer_step E s \<noteq> None"
  using assms
  by (simp add: writer_step_def write_crit_def Let_def)

lemma reader_woken_moves:
  assumes "rthr s = R_Woken d"
  shows "reader_step E s \<noteq> None"
  using assms by (simp add: reader_step_def)

text \<open>Under the invariant no step panics, the sample wrappers on empty slices apart.\<close>

lemma writer_loop_no_panic:
  assumes h: "whead_ok C s data n"
  shows "panicked (writer_loop data n s) = panicked s"
proof -
  note d = whead_okD [OF h]
  obtain p r where wh: "write_head (obj s) data n = (p, r)" by force
  have "\<forall>x. r \<noteq> W_Fault x"
  proof (cases "data = []")
    case True
    then show ?thesis using wh d(1) d(2) d(5) by (auto simp: write_head_def split: if_splits)
  next
    case False
    then show ?thesis using wh d(1) d(5) by (auto simp: write_head_def Let_def split: if_splits)
  qed
  then show ?thesis by (cases r) (simp_all add: writer_loop_def wh)
qed

lemma writer_call_head:
  assumes inv: "inv_writer C s" and free: "writer_free s" and op: "\<not> closed (obj s)"
  shows "whead_ok C (s\<lparr>w_samples := b, fed := fed s @ d, w_arg := d,
                       w_sub0 := length (submitted s), w_off0 := writeOff (obj s)\<rparr>) d 0"
proof -
  have "wrest_ok C s" using inv free by (rule inv_writer_free)
  then show ?thesis using inv op by (simp add: whead_ok_def wrest_ok_def inv_writer_def)
qed

lemma writer_call_no_panic:
  assumes inv: "inv_writer C s" and free: "writer_free s"
  shows "panicked (writer_call d (s\<lparr>w_samples := b\<rparr>)) = panicked s"
proof (cases "closed (obj s)")
  case True
  then show ?thesis by (simp add: writer_call_def)
next
  case False
  show ?thesis
    using writer_loop_no_panic [OF writer_call_head [OF inv free False, where b = b and d = d]] False
    by (simp add: writer_call_def)
qed

lemma writer_step_no_panic:
  assumes inv: "inv_writer C s" and st: "writer_step E s = Some s'"
  shows "panicked s' = panicked s"
  using st
proof (cases rule: writer_step_cases)
  case (recv buf rest n c p)
  then show ?thesis by simp
next
  case (abort buf rest n c)
  then show ?thesis by simp
next
  case (fault buf rest n c)
  have "wframe_ok C s buf rest n c" "4 \<le> C"
    using inv fault(1) by (simp_all add: inv_writer_def)
  then have "length buf div 4 \<noteq> 0" by (rule wframe_no_fault)
  then show ?thesis using fault(3) by simp
next
  case (submit buf rest n c)
  have fr: "wframe_ok C s buf rest n c" and C: "length (writeBuf (obj s)) = C" "4 \<le> C"
    and subs: "\<forall>w \<in> set (submitted s). length w = C"
    using inv submit(1) by (simp_all add: inv_writer_def)
  show ?thesis
    unfolding submit(4) C(1)
    using writer_loop_no_panic [OF writer_submit_head [OF fr C subs submit(2)]] by simp
qed

lemma reader_fetch_no_panic:
  assumes "permitClosed (obj s) = closed (obj s)"
  shows "panicked (reader_fetch E d s) = panicked s"
  using assms by (cases rule: reader_fetch_cases [where E = E and d = d]) simp_all

lemma reader_call_no_panic:
  assumes "permitClosed (obj s) = closed (obj s)"
  shows "panicked (reader_call E d (s\<lparr>r_samples := b\<rparr>)) = panicked s"
proof (cases "read_fast (obj s) d")
  case None
  then show ?thesis
    using reader_fetch_no_panic [of "s\<lparr>r_samples := b, r_dlen := d,
        r_emit0 := length (emitted s), r_off0 := readOff (obj s)\<rparr>" E d] assms
    by (simp add: reader_call_def)
next
  case (Some pb)
  then show ?thesis by (cases pb) (simp add: reader_call_def)
qed

lemma close_call_no_panic:
  assumes "permitClosed (obj s) = closed (obj s)"
  shows "panicked (close_call s) = panicked s"
  using assms by (cases "closed (obj s)") (simp_all add: close_call_again close_call_first)

lemma step_no_panic:
  assumes inv: "INV C s" and st: "step E ev s = Some s'"
    and ev: "ev \<noteq> WriteSamplesCall []" "ev \<noteq> ReadSamplesCall 0"
  shows "panicked s' = None"
proof -
  note i = INV_D [OF inv]
  note pc = inv_syncD(1) [OF i(3)]
  have np: "panicked s = None" using st by (simp split: if_splits)
  show ?thesis
  proof (cases ev)
    case (WriteCall d)
    then show ?thesis using st np writer_call_no_panic [OF i(1)]
      by (auto split: if_splits)
  next
    case (WriteSamplesCall ss)
    then show ?thesis using st np ev writer_call_no_panic [OF i(1)]
      by (auto split: if_splits)
  next
    case WriterStep
    then show ?thesis using st np writer_step_no_panic [OF i(1)] by simp
  next
    case (ReadCall d)
    then show ?thesis using st np reader_call_no_panic [OF pc]
      by (auto split: if_splits)
  next
    case (ReadSamplesCall len)
    then show ?thesis using st np ev reader_call_no_panic [OF pc]
      by (auto split: if_splits)
  next
    case ReaderStep
    then obtain d where "s' = reader_fetch E d s"
      using st np by (auto simp: reader_step_def split: rthread.splits)
    then show ?thesis using np reader_fetch_no_panic [OF pc] by simp
  next
    case CloseCall
    then show ?thesis using st np close_call_no_panic [OF pc] by auto
  qed
qed

text \<open>The writer, holding a window while the reader waits, receives, submits and signals.\<close>

lemma writer_handshake:
  assumes inv: "INV C s" and np: "panicked s = None"
    and w: "wthr s = W_Permit buf rest n c" and r: "rthr s = R_Wait d"
  shows "\<exists>s1 s2. step E WriterStep s = Some s1 \<and> step E WriterStep s1 = Some s2 \<and>
           submitted s2 = submitted s @ [take C buf] \<and> rthr s2 = R_Woken d \<and>
           step E ReaderStep s2 \<noteq> None"
proof -
  note i = INV_D [OF inv]
  note a = inv_syncD [OF i(3)]
  have op: "\<not> closed (obj s)" using a(3) [OF r] .
  have tok: "writePermit (obj s) = 1" using a(4) [OF r] w by (simp add: holds_permit_def)
  have fr: "wframe_ok C s buf rest n c" and C: "length (writeBuf (obj s)) = C" "4 \<le> C"
    using i(1) w by (simp_all add: inv_writer_def)
  have nf: "length buf div 4 \<noteq> 0" using fr C(2) by (rule wframe_no_fault)
  define s1 where "s1 = s\<lparr>obj := (obj s)\<lparr>writePermit := 0\<rparr>, wthr := W_Lock buf rest n c\<rparr>"
  define s2 where "s2 = writer_loop rest (n + c)
      (Signal (s1\<lparr>obj := (obj s1)\<lparr>ps := paulstretch_write E (ps (obj s1)) (take C buf)\<rparr>,
                 submitted := submitted s1 @ [take C buf]\<rparr>))"
  have st1: "step E WriterStep s = Some s1"
    using np w tok by (simp add: step_writer writer_step_def recv_permit_def s1_def del: step.simps)
  have st2: "step E WriterStep s1 = Some s2"
    using np op nf C(1)
    by (simp add: step_writer writer_step_def write_crit_def Let_def s1_def s2_def
        del: step.simps)
  have sub: "submitted s2 = submitted s @ [take C buf]"
    by (simp add: s2_def writer_loop_frame s1_def)
  have wk: "rthr s2 = R_Woken d"
    using r by (simp add: s2_def writer_loop_frame Signal_rthr s1_def)
  have np2: "panicked s2 = None"
    using step_no_panic [OF step_INV [OF inv st1] st2] by simp
  have "step E ReaderStep s2 \<noteq> None"
    using np2 reader_woken_moves [OF wk] by (simp add: step_reader del: step.simps)
  then show ?thesis using st1 st2 sub wk by blast
qed


text \<open>
  The reader, finding no output while the writer stands at an empty open channel, puts
  a permit into the channel before it waits.
\<close>

lemma writer_blockedD:
  assumes "writer_blocked s"
  obtains buf rest n c where "wthr s = W_Permit buf rest n c"
    "writePermit (obj s) = 0" "\<not> permitClosed (obj s)"
  using assms
  by (auto simp: writer_blocked_def recv_permit_def split: wthread.splits if_splits)

lemma reader_fetch_issues_permit:
  assumes sync: "permitClosed (obj s) = closed (obj s)"
    and wb: "writer_blocked s"
    and rd: "paulstretch_read E (ps (obj s)) = (e, None)"
  shows "rthr (reader_fetch E d s) = R_Wait d \<and> writePermit (obj (reader_fetch E d s)) = 1 \<and>
         wthr (reader_fetch E d s) = wthr s \<and> \<not> writer_blocked (reader_fetch E d s) \<and>
         writer_step E (reader_fetch E d s) \<noteq> None"
proof -
  from wb obtain buf rest n c where w: "wthr s = W_Permit buf rest n c"
    and tok: "writePermit (obj s) = 0" and npc: "\<not> permitClosed (obj s)"
    by (rule writer_blockedD)
  have op: "\<not> closed (obj s)" using npc sync by simp
  define s' where "s' = s\<lparr>obj := (obj s)\<lparr>ps := e, writePermit := 1\<rparr>, rthr := R_Wait d\<rparr>"
  have run: "reader_fetch E d s = s'"
    using tok by (simp add: reader_fetch_def read_crit_block [OF rd op npc] s'_def)
  show ?thesis
    unfolding run using w
    by (simp add: s'_def writer_blocked_def recv_permit_def writer_step_def)
qed

text \<open>
  C3. In every state the system can reach without a panic: the writer and the reader are
  never blocked both; after \<open>Close\<close> neither is blocked; while the reader waits, a permit
  is outstanding, so that a writer inside a call can move; while the writer is blocked, a
  reader inside a call can move. When the writer holds a window and the reader waits,
  two steps of the writer (receive, submit) pass the window to the engine and wake the
  reader, which can then move. When the writer is blocked and the reader, with nothing
  staged, finds no output in the engine, the reader's step puts the permit into the
  channel and waits, and the writer can move.
\<close>

theorem no_deadlock:
  assumes "NewPaulstretch E stretchFactor windowSize = Inr p"
    and "0 < windowSize" "windowSize < 2 ^ 61"
    and "run E evs (start p) = Some s"
    and "panicked s = None"
  shows "\<not> (writer_blocked s \<and> reader_blocked s) \<and>
         (closed (obj s) \<longrightarrow> \<not> writer_blocked s \<and> \<not> reader_blocked s) \<and>
         (reader_blocked s \<longrightarrow>
            (writePermit (obj s) = 1 \<or> holds_permit s) \<and>
            (writer_free s \<or> step E WriterStep s \<noteq> None)) \<and>
         (writer_blocked s \<longrightarrow> reader_free s \<or> step E ReaderStep s \<noteq> None) \<and>
         (\<forall>buf rest n c d. wthr s = W_Permit buf rest n c \<and> rthr s = R_Wait d \<longrightarrow>
            (\<exists>s1 s2. step E WriterStep s = Some s1 \<and> step E WriterStep s1 = Some s2 \<and>
               submitted s2 = submitted s @ [take (nat (4 * windowSize)) buf] \<and>
               rthr s2 = R_Woken d \<and> step E ReaderStep s2 \<noteq> None)) \<and>
         (\<forall>d e. writer_blocked s \<and> 0 < d \<and>
               readOff (obj s) = length (readBuf (obj s)) \<and>
               paulstretch_read E (ps (obj s)) = (e, None) \<longrightarrow>
            (reader_free s \<longrightarrow>
               (\<exists>s1. step E (ReadCall d) s = Some s1 \<and> rthr s1 = R_Wait d \<and>
                  writePermit (obj s1) = 1 \<and> \<not> writer_blocked s1 \<and>
                  step E WriterStep s1 \<noteq> None)) \<and>
            (rthr s = R_Woken d \<longrightarrow>
               (\<exists>s1. step E ReaderStep s = Some s1 \<and> rthr s1 = R_Wait d \<and>
                  writePermit (obj s1) = 1 \<and> \<not> writer_blocked s1 \<and>
                  step E WriterStep s1 \<noteq> None)))"
proof -
  define C where "C = nat (4 * windowSize)"
  have inv: "INV C s" using reach_INV [OF assms(1-4)] by (simp add: C_def)
  note i = INV_D [OF inv]
  note a = inv_syncD [OF i(3)]
  note np = assms(5)
  have wait: "\<And>d. rthr s = R_Wait d \<Longrightarrow>
      \<not> closed (obj s) \<and> (writePermit (obj s) = 1 \<or> holds_permit s)"
    using a(3) a(4) by blast
  have c1: "\<not> (writer_blocked s \<and> reader_blocked s)"
  proof
    assume b: "writer_blocked s \<and> reader_blocked s"
    then obtain d where r: "rthr s = R_Wait d"
      by (auto simp: reader_blocked_def split: rthread.splits)
    from b obtain buf rest n c where "wthr s = W_Permit buf rest n c" "writePermit (obj s) = 0"
      by (blast elim: writer_blockedD)
    then show False using wait [OF r] by (simp add: holds_permit_def)
  qed
  have c2: "closed (obj s) \<longrightarrow> \<not> writer_blocked s \<and> \<not> reader_blocked s"
  proof
    assume cl: "closed (obj s)"
    have "\<not> writer_blocked s" using cl a(1) by (auto elim: writer_blockedD)
    moreover have "\<not> reader_blocked s"
      using cl wait by (auto simp: reader_blocked_def split: rthread.splits)
    ultimately show "\<not> writer_blocked s \<and> \<not> reader_blocked s" ..
  qed
  have c3: "reader_blocked s \<longrightarrow>
      (writePermit (obj s) = 1 \<or> holds_permit s) \<and>
      (writer_free s \<or> step E WriterStep s \<noteq> None)"
  proof
    assume "reader_blocked s"
    then obtain d where r: "rthr s = R_Wait d"
      by (auto simp: reader_blocked_def split: rthread.splits)
    note w = wait [OF r]
    have "writer_free s \<or> writer_step E s \<noteq> None"
    proof (cases "wthr s")
      case W_Idle
      then show ?thesis by (simp add: writer_free_def)
    next
      case (W_Ret n e)
      then show ?thesis by (simp add: writer_free_def)
    next
      case (W_Permit buf rest n c)
      then have "writePermit (obj s) = 1" using w by (simp add: holds_permit_def)
      then show ?thesis using W_Permit by (simp add: writer_step_def recv_permit_def)
    next
      case (W_Lock buf rest n c)
      then show ?thesis using writer_lock_moves by blast
    qed
    then show "(writePermit (obj s) = 1 \<or> holds_permit s) \<and>
      (writer_free s \<or> step E WriterStep s \<noteq> None)"
      using w np by (simp add: step_writer del: step.simps)
  qed
  have c4: "writer_blocked s \<longrightarrow> reader_free s \<or> step E ReaderStep s \<noteq> None"
  proof
    assume wb: "writer_blocked s"
    then have nb: "\<not> reader_blocked s" using c1 by blast
    have "reader_free s \<or> reader_step E s \<noteq> None"
    proof (cases "rthr s")
      case (R_Wait d)
      then show ?thesis using nb by (simp add: reader_blocked_def)
    next
      case (R_Woken d)
      then show ?thesis using reader_woken_moves by blast
    qed (simp_all add: reader_free_def)
    then show "reader_free s \<or> step E ReaderStep s \<noteq> None"
      using np by (simp add: step_reader del: step.simps)
  qed
  have c5: "\<forall>buf rest n c d. wthr s = W_Permit buf rest n c \<and> rthr s = R_Wait d \<longrightarrow>
      (\<exists>s1 s2. step E WriterStep s = Some s1 \<and> step E WriterStep s1 = Some s2 \<and>
         submitted s2 = submitted s @ [take C buf] \<and>
         rthr s2 = R_Woken d \<and> step E ReaderStep s2 \<noteq> None)"
    using writer_handshake [OF inv np] by blast
  have c6: "\<forall>d e. writer_blocked s \<and> 0 < d \<and>
         readOff (obj s) = length (readBuf (obj s)) \<and>
         paulstretch_read E (ps (obj s)) = (e, None) \<longrightarrow>
      (reader_free s \<longrightarrow>
         (\<exists>s1. step E (ReadCall d) s = Some s1 \<and> rthr s1 = R_Wait d \<and>
            writePermit (obj s1) = 1 \<and> \<not> writer_blocked s1 \<and>
            step E WriterStep s1 \<noteq> None)) \<and>
      (rthr s = R_Woken d \<longrightarrow>
         (\<exists>s1. step E ReaderStep s = Some s1 \<and> rthr s1 = R_Wait d \<and>
            writePermit (obj s1) = 1 \<and> \<not> writer_blocked s1 \<and>
            step E WriterStep s1 \<noteq> None))"
  proof (intro allI impI conjI)
    fix d :: nat and e
    assume h: "writer_blocked s \<and> 0 < d \<and> readOff (obj s) = length (readBuf (obj s)) \<and>
         paulstretch_read E (ps (obj s)) = (e, None)"
    assume free: "reader_free s"
    define s0 where "s0 = s\<lparr>r_samples := False, r_dlen := d, r_emit0 := length (emitted s),
                             r_off0 := readOff (obj s)\<rparr>"
    have "writer_blocked s0 = writer_blocked s"
      by (simp add: writer_blocked_def s0_def split: wthread.split)
    then have wb0: "writer_blocked s0" using h by simp
    have sync0: "permitClosed (obj s0) = closed (obj s0)" using a(1) by (simp add: s0_def)
    have rd0: "paulstretch_read E (ps (obj s0)) = (e, None)" using h by (simp add: s0_def)
    have call: "reader_call E d (s\<lparr>r_samples := False\<rparr>) = reader_fetch E d s0"
      using h by (simp add: reader_call_def read_fast_def s0_def)
    have st: "step E (ReadCall d) s = Some (reader_fetch E d s0)"
      using np free call by (simp add: step_read del: step.simps)
    have "panicked (reader_fetch E d s0) = None"
      using reader_fetch_no_panic [OF sync0] np by (simp add: s0_def)
    then show "\<exists>s1. step E (ReadCall d) s = Some s1 \<and> rthr s1 = R_Wait d \<and>
            writePermit (obj s1) = 1 \<and> \<not> writer_blocked s1 \<and>
            step E WriterStep s1 \<noteq> None"
      using st reader_fetch_issues_permit [OF sync0 wb0 rd0, of d]
      by (intro exI [of _ "reader_fetch E d s0"]) (simp add: step_writer del: step.simps)
  next
    fix d :: nat and e
    assume h: "writer_blocked s \<and> 0 < d \<and> readOff (obj s) = length (readBuf (obj s)) \<and>
         paulstretch_read E (ps (obj s)) = (e, None)"
    assume wk: "rthr s = R_Woken d"
    have st: "step E ReaderStep s = Some (reader_fetch E d s)"
      using np wk by (simp add: step_reader reader_step_def del: step.simps)
    have "panicked (reader_fetch E d s) = None"
      using reader_fetch_no_panic [OF a(1)] np by simp
    then show "\<exists>s1. step E ReaderStep s = Some s1 \<and> rthr s1 = R_Wait d \<and>
            writePermit (obj s1) = 1 \<and> \<not> writer_blocked s1 \<and>
            step E WriterStep s1 \<noteq> None"
      using st reader_fetch_issues_permit [OF a(1) _ _, of E e d] h
      by (intro exI [of _ "reader_fetch E d s"]) (simp add: step_writer del: step.simps)
  qed
  show ?thesis using c1 c2 c3 c4 c5 c6 unfolding C_def by blast
qed


theorem no_deadlock_witness:
  "reader_blocked (the (run echo_engine [ReadCall 1, WriteCall [1, 2, 3, 4]] (start demo_adapter))) \<and>
   (\<exists>s1 s2.
      step echo_engine WriterStep
        (the (run echo_engine [ReadCall 1, WriteCall [1, 2, 3, 4]] (start demo_adapter))) = Some s1 \<and>
      step echo_engine WriterStep s1 = Some s2 \<and>
      submitted s2 = [[1, 2, 3, 4]] \<and> rthr s2 = R_Woken 1) \<and>
   writer_blocked (the (run echo_engine
      [WriteCall [1, 2, 3, 4, 5, 6, 7, 8], WriterStep, WriterStep, ReadCall 4]
      (start demo_adapter))) \<and>
   (\<exists>s1. step echo_engine (ReadCall 1) (the (run echo_engine
      [WriteCall [1, 2, 3, 4, 5, 6, 7, 8], WriterStep, WriterStep, ReadCall 4]
      (start demo_adapter))) = Some s1 \<and>
      rthr s1 = R_Wait 1 \<and> writePermit (obj s1) = 1 \<and> \<not> writer_blocked s1)"
proof -
  define ea where "ea = [ReadCall 1, WriteCall [1, 2, 3, (4::byte)]]"
  define eb where "eb = [WriteCall [1, 2, 3, 4, 5, 6, 7, (8::byte)], WriterStep, WriterStep,
                         ReadCall 4]"
  define a where "a = the (run echo_engine ea (start demo_adapter))"
  define b where "b = the (run echo_engine eb (start demo_adapter))"
  have "run echo_engine ea (start demo_adapter) \<noteq> None" unfolding ea_def by code_simp
  then have ra: "run echo_engine ea (start demo_adapter) = Some a" by (simp add: a_def)
  have "run echo_engine eb (start demo_adapter) \<noteq> None" unfolding eb_def by code_simp
  then have rb: "run echo_engine eb (start demo_adapter) = Some b" by (simp add: b_def)
  have ha: "panicked a = None" "reader_blocked a" "wthr a = W_Permit [1, 2, 3, 4] [] 0 4"
    "rthr a = R_Wait 1" "submitted a = []"
    unfolding a_def ea_def by code_simp+
  have pb: "ps (obj b) = []" unfolding b_def eb_def by code_simp
  have hb: "panicked b = None" "writer_blocked b" "reader_free b"
    "readOff (obj b) = length (readBuf (obj b))"
    "paulstretch_read echo_engine (ps (obj b)) = ([], None)"
    unfolding pb unfolding b_def eb_def by (code_simp, code_simp, code_simp, code_simp)
      (simp add: echo_engine_def)
  note ta = no_deadlock [OF demo_new _ _ ra ha(1)]
  note tb = no_deadlock [OF demo_new _ _ rb hb(1)]
  have "\<exists>s1 s2. step echo_engine WriterStep a = Some s1 \<and>
      step echo_engine WriterStep s1 = Some s2 \<and>
      submitted s2 = [[1, 2, 3, 4]] \<and> rthr s2 = R_Woken 1"
    using ta ha(3) ha(4) ha(5) by (fastforce simp del: step.simps)
  moreover have "\<exists>s1. step echo_engine (ReadCall 1) b = Some s1 \<and>
      rthr s1 = R_Wait 1 \<and> writePermit (obj s1) = 1 \<and> \<not> writer_blocked s1"
    using tb hb(2-5) by (fastforce simp del: step.simps)
  ultimately show ?thesis
    using ha(2) hb(2) unfolding a_def b_def ea_def eb_def by blast
qed

subsection \<open>C6: Read after Close\<close>

text \<open>
  C6 as stated: after \<open>Close\<close>, once the staged output and the engine's output are
  exhausted, every \<open>Read\<close> call returns 0 bytes with end of stream. It is false for a
  destination of length 0: on the closed, drained adapter over an engine without output,
  where \<open>Read\<close> into one byte returns (0, EOF), \<open>Read\<close> into an empty slice returns (0, nil).
\<close>

theorem read_after_close_counterexample:
  "closed (obj (close_call (start demo_adapter))) \<and>
   readOff (obj (close_call (start demo_adapter))) =
     length (readBuf (obj (close_call (start demo_adapter)))) \<and>
   ps (obj (close_call (start demo_adapter))) = [] \<and>
   map_option read_result (step echo_engine (ReadCall 1) (close_call (start demo_adapter))) =
     Some (Some (0, Some EOF)) \<and>
   map_option read_result (step echo_engine (ReadCall 0) (close_call (start demo_adapter))) =
     Some (Some (0, None))"
  by code_simp

lemma copy_out_nonempty: "0 < d \<Longrightarrow> src \<noteq> [] \<Longrightarrow> copy_out d src \<noteq> []"
  by (cases src) (auto simp: copy_out_def min_def)

text \<open>
  C6 as amended. In every reachable closed state, a \<open>Read\<close> call with a non-empty
  destination returns within the call, without waiting: while staged output remains,
  bytes of it; with the staging buffer drained and a window ready in the engine, bytes
  of that window; with the staging buffer drained and no window ready, 0 bytes and end
  of stream, and in no other case end of stream. The engine receives no further input.
  (A \<open>Read\<close> call with an empty destination returns 0 bytes and no error.)
\<close>

theorem read_after_close:
  assumes "NewPaulstretch E stretchFactor windowSize = Inr p"
    and "0 < windowSize" "windowSize < 2 ^ 61"
    and "run E evs (start p) = Some s"
    and "closed (obj s)" "reader_free s" "panicked s = None" "0 < d"
  shows "\<exists>s'. step E (ReadCall d) s = Some s' \<and> reader_free s' \<and> panicked s' = None \<and>
           closed (obj s') \<and> submitted s' = submitted s \<and>
           readOff (obj s) \<le> length (readBuf (obj s)) \<and>
           (readOff (obj s) < length (readBuf (obj s)) \<longrightarrow>
              rthr s' = R_Ret (copy_out d (drop (readOff (obj s)) (readBuf (obj s)))) None \<and>
              copy_out d (drop (readOff (obj s)) (readBuf (obj s))) \<noteq> [] \<and>
              emitted s' = emitted s) \<and>
           (readOff (obj s) = length (readBuf (obj s)) \<longrightarrow>
              (\<forall>e ptr. paulstretch_read E (ps (obj s)) = (e, Some ptr) \<longrightarrow>
                 rthr s' = R_Ret (copy_out d (bytes_at ptr (length (readBuf (obj s))))) None \<and>
                 copy_out d (bytes_at ptr (length (readBuf (obj s)))) \<noteq> []) \<and>
              (\<forall>e. paulstretch_read E (ps (obj s)) = (e, None) \<longrightarrow>
                 rthr s' = R_Ret [] (Some EOF))) \<and>
           (\<forall>bs. rthr s' = R_Ret bs (Some EOF) \<longrightarrow>
              bs = [] \<and> readOff (obj s) = length (readBuf (obj s)) \<and>
              snd (paulstretch_read E (ps (obj s))) = None)"
proof -
  define C where "C = nat (4 * windowSize)"
  have inv: "INV C s" using reach_INV [OF assms(1-4)] by (simp add: C_def)
  note i = INV_D [OF inv]
  note a = inv_syncD [OF i(3)]
  have base: "length (readBuf (obj s)) = C" "4 \<le> C" "readOff (obj s) \<le> C"
    using i(2) by (simp_all add: inv_reader_def)
  define s' where "s' = reader_call E d (s\<lparr>r_samples := False\<rparr>)"
  have st: "step E (ReadCall d) s = Some s'"
    using assms(6,7) by (simp add: s'_def)
  have np: "panicked s' = None"
    using reader_call_no_panic [OF a(1)] assms(7) by (simp add: s'_def)
  have cl: "closed (obj s')" and sub: "submitted s' = submitted s"
    using assms(5) by (simp_all add: s'_def reader_call_frame)
  define s0 where "s0 = s\<lparr>r_samples := False, r_dlen := d, r_emit0 := length (emitted s),
                           r_off0 := readOff (obj s)\<rparr>"
  show ?thesis
  proof (cases "readOff (obj s) < C")
    case True
    define bs where "bs = copy_out d (drop (readOff (obj s)) (readBuf (obj s)))"
    have run: "s' = s0\<lparr>obj := (obj s)\<lparr>readOff := readOff (obj s) + length bs\<rparr>,
                       rthr := R_Ret bs None, delivered := delivered s @ bs\<rparr>"
      using True base(1)
      by (simp add: s'_def reader_call_def read_fast_def Let_def s0_def bs_def)
    have ne: "bs \<noteq> []"
      unfolding bs_def using True base(1) assms(8) by (intro copy_out_nonempty) simp_all
    have "reader_free s'" "rthr s' = R_Ret bs None" "emitted s' = emitted s"
      by (simp_all add: run reader_free_def s0_def)
    then show ?thesis
      using st np cl sub base True ne unfolding bs_def
      by (intro exI [of _ s']) (simp del: step.simps)
  next
    case False
    then have off: "readOff (obj s) = C" using base(3) by simp
    have run: "s' = reader_fetch E d s0"
      using off base(1) assms(8) by (simp add: s'_def reader_call_def read_fast_def s0_def)
    obtain e r where rd: "paulstretch_read E (ps (obj s)) = (e, r)" by force
    have rd0: "paulstretch_read E (ps (obj s0)) = (e, r)" using rd by (simp add: s0_def)
    have cl0: "closed (obj s0)" using assms(5) by (simp add: s0_def)
    show ?thesis
    proof (cases r)
      case None
      have "rthr s' = R_Ret [] (Some EOF)"
        unfolding run
        by (simp add: reader_fetch_def read_crit_eof [OF rd0 [unfolded None] cl0])
      then show ?thesis
        using st np cl sub base off rd None
        by (intro exI [of _ s']) (simp add: reader_free_def del: step.simps)
    next
      case (Some ptr)
      define out where "out = bytes_at ptr (length (readBuf (obj s)))"
      have ne: "copy_out d out \<noteq> []"
        using assms(8) base(1,2) by (intro copy_out_nonempty) (auto simp: out_def bytes_at_def)
      have "rthr s' = R_Ret (copy_out d out) None"
        unfolding run out_def
        by (simp add: reader_fetch_def read_crit_got [OF rd [unfolded Some]] Let_def s0_def)
      then show ?thesis
        using st np cl sub base off rd Some ne unfolding out_def
        by (intro exI [of _ s']) (simp add: reader_free_def del: step.simps)
    qed
  qed
qed

theorem read_after_close_witness:
  "\<exists>s'. step echo_engine (ReadCall 8)
          (the (run echo_engine
             [WriteCall [1, 2, 3, 4], WriterStep, WriterStep, ReadCall 3, CloseCall]
             (start demo_adapter))) = Some s' \<and>
        rthr s' = R_Ret [4] None \<and> reader_free s'"
proof -
  define evs where "evs = [WriteCall [1, 2, 3, (4::byte)], WriterStep, WriterStep, ReadCall 3,
                           CloseCall]"
  define s where "s = the (run echo_engine evs (start demo_adapter))"
  have "run echo_engine evs (start demo_adapter) \<noteq> None" unfolding evs_def by code_simp
  then have r: "run echo_engine evs (start demo_adapter) = Some s" by (simp add: s_def)
  have h: "closed (obj s)" "reader_free s" "panicked s = None"
    unfolding s_def evs_def by code_simp+
  have v: "readOff (obj s) = 3" "readBuf (obj s) = [0, 0, 0, 4]"
    unfolding s_def evs_def by code_simp+
  have c: "copy_out 8 (drop 3 [0, 0, 0, 4::byte]) = [4]" by (simp add: copy_out_def)
  from read_after_close [OF demo_new _ _ r h, of 8]
  show ?thesis unfolding v c unfolding s_def evs_def by (auto simp del: step.simps)
qed

subsection \<open>C10: one window per Read\<close>

text \<open>
  C10 as stated: a \<open>Read\<close> call that finds no staged output fetches exactly one window
  from the engine. It is false. After one window was submitted to the echo engine, which
  then has a window ready, a \<open>Read\<close> into an empty slice finds nothing staged, returns
  (0, nil) and fetches nothing: the window is still in the engine. And on a closed,
  drained adapter over an engine without output, a \<open>Read\<close> into eight bytes returns
  (0, EOF) and has fetched nothing.
\<close>

theorem read_fetches_one_counterexample:
  "r_off0 (the (run echo_engine [WriteCall [1, 2, 3, 4], WriterStep, WriterStep, ReadCall 0]
      (start demo_adapter))) = 4 \<and>
   rthr (the (run echo_engine [WriteCall [1, 2, 3, 4], WriterStep, WriterStep, ReadCall 0]
      (start demo_adapter))) = R_Ret [] None \<and>
   emitted (the (run echo_engine [WriteCall [1, 2, 3, 4], WriterStep, WriterStep, ReadCall 0]
      (start demo_adapter))) = [] \<and>
   ps (obj (the (run echo_engine [WriteCall [1, 2, 3, 4], WriterStep, WriterStep, ReadCall 0]
      (start demo_adapter)))) = [[1, 2, 3, 4]] \<and>
   r_off0 (the (run echo_engine [CloseCall, ReadCall 8] (start demo_adapter))) = 4 \<and>
   rthr (the (run echo_engine [CloseCall, ReadCall 8] (start demo_adapter))) =
     R_Ret [] (Some EOF) \<and>
   emitted (the (run echo_engine [CloseCall, ReadCall 8] (start demo_adapter))) = []"
  by code_simp

lemma rret_okD:
  assumes "rret_ok C s bs e"
  shows "length bs \<le> C" "length bs \<le> r_dlen s" "length (emitted s) \<le> r_emit0 s + 1"
    "r_off0 s < C \<Longrightarrow>
       e = None \<and> length (emitted s) = r_emit0 s \<and>
       bs = copy_out (r_dlen s) (drop (r_off0 s) (readBuf (obj s))) \<and>
       readOff (obj s) = r_off0 s + length bs"
    "C \<le> r_off0 s \<Longrightarrow> r_dlen s = 0 \<Longrightarrow>
       e = None \<and> bs = [] \<and> length (emitted s) = r_emit0 s"
    "C \<le> r_off0 s \<Longrightarrow> 0 < r_dlen s \<Longrightarrow> e = None \<Longrightarrow>
       length (emitted s) = r_emit0 s + 1 \<and>
       bs = copy_out (r_dlen s) (last (emitted s)) \<and> bs \<noteq> []"
    "e = Some EOF \<Longrightarrow>
       closed (obj s) \<and> bs = [] \<and> readOff (obj s) = C \<and>
       length (emitted s) = r_emit0 s \<and> 0 < r_dlen s \<and> r_off0 s = C"
  using assms unfolding rret_ok_def by blast+

text \<open>
  C10 as amended. When a \<open>Read\<close> call has returned, it has returned at most one window's
  worth of bytes and fetched at most one window. If staged output remained when it
  began, it returned bytes of the staged window only and fetched nothing. Otherwise it
  fetched one window exactly when it returned bytes, which then are the front of that
  window, and none when it returned no bytes (empty destination, or end of stream). So
  a destination longer than a window gets a short count.
\<close>

theorem read_one_window:
  assumes "NewPaulstretch E stretchFactor windowSize = Inr p"
    and "0 < windowSize" "windowSize < 2 ^ 61"
    and "run E evs (start p) = Some s"
    and "rthr s = R_Ret bs e"
  shows "length bs \<le> nat (4 * windowSize) \<and> length bs \<le> r_dlen s \<and>
         length (emitted s) \<le> r_emit0 s + 1 \<and>
         (r_off0 s < nat (4 * windowSize) \<longrightarrow>
            e = None \<and> length (emitted s) = r_emit0 s \<and>
            bs = copy_out (r_dlen s) (drop (r_off0 s) (readBuf (obj s)))) \<and>
         (nat (4 * windowSize) \<le> r_off0 s \<and> bs \<noteq> [] \<longrightarrow>
            length (emitted s) = r_emit0 s + 1 \<and>
            bs = copy_out (r_dlen s) (last (emitted s))) \<and>
         (nat (4 * windowSize) \<le> r_off0 s \<and> bs = [] \<longrightarrow> length (emitted s) = r_emit0 s) \<and>
         (nat (4 * windowSize) < r_dlen s \<longrightarrow> length bs < r_dlen s)"
proof -
  define C where "C = nat (4 * windowSize)"
  have inv: "inv_reader C s" using reach_INV [OF assms(1-4)] by (simp add: INV_def C_def)
  then have r: "rret_ok C s bs e" using assms(5) by (simp add: inv_reader_def)
  note k = rret_okD [OF r]
  have e: "e = None \<or> e = Some EOF"
  proof (cases e)
    case (Some x)
    then show ?thesis by (cases x) simp
  qed simp
  have c: "C \<le> r_off0 s \<and> bs \<noteq> [] \<longrightarrow>
            length (emitted s) = r_emit0 s + 1 \<and> bs = copy_out (r_dlen s) (last (emitted s))"
  proof
    assume h: "C \<le> r_off0 s \<and> bs \<noteq> []"
    have pos: "0 < r_dlen s" using h k(2) by (cases bs) simp_all
    have "e \<noteq> Some EOF" using h k(7) by blast
    then have "e = None" using e by blast
    then show "length (emitted s) = r_emit0 s + 1 \<and>
        bs = copy_out (r_dlen s) (last (emitted s))"
      using h pos k(6) by blast
  qed
  have d: "C \<le> r_off0 s \<and> bs = [] \<longrightarrow> length (emitted s) = r_emit0 s"
  proof
    assume h: "C \<le> r_off0 s \<and> bs = []"
    show "length (emitted s) = r_emit0 s"
    proof (cases "e = None")
      case True
      show ?thesis
      proof (cases "r_dlen s = 0")
        case True
        then show ?thesis using h k(5) by blast
      next
        case False
        then have "0 < r_dlen s" by simp
        then have "bs \<noteq> []" using h True k(6) by blast
        then show ?thesis using h by blast
      qed
    next
      case False
      then have "e = Some EOF" using e by blast
      then show ?thesis using k(7) by blast
    qed
  qed
  have f: "C < r_dlen s \<longrightarrow> length bs < r_dlen s" using k(1) by simp
  have b: "r_off0 s < C \<longrightarrow> e = None \<and> length (emitted s) = r_emit0 s \<and>
            bs = copy_out (r_dlen s) (drop (r_off0 s) (readBuf (obj s)))"
    using k(4) by blast
  show ?thesis
    unfolding C_def [symmetric]
    by (intro conjI) (fact k(1) k(2) k(3) b c d f)+
qed

theorem read_one_window_witness:
  "rthr (the (run echo_engine
      [WriteCall [1, 2, 3, 4, 5, 6, 7, 8], WriterStep, WriterStep, ReadCall 9]
      (start demo_adapter))) = R_Ret [1, 2, 3, 4] None \<and>
   length (emitted (the (run echo_engine
      [WriteCall [1, 2, 3, 4, 5, 6, 7, 8], WriterStep, WriterStep, ReadCall 9]
      (start demo_adapter)))) = 1"
proof -
  define evs where "evs = [WriteCall [1, 2, 3, 4, 5, 6, 7, (8::byte)], WriterStep, WriterStep,
                           ReadCall 9]"
  define s where "s = the (run echo_engine evs (start demo_adapter))"
  have "run echo_engine evs (start demo_adapter) \<noteq> None" unfolding evs_def by code_simp
  then have r: "run echo_engine evs (start demo_adapter) = Some s" by (simp add: s_def)
  have h: "rthr s = R_Ret [1, 2, 3, 4] None" unfolding s_def evs_def by code_simp
  have v: "r_off0 s = 4" "r_emit0 s = 0" "r_dlen s = 9" unfolding s_def evs_def by code_simp+
  from read_one_window [OF demo_new _ _ r h] h v
  show ?thesis unfolding s_def evs_def by simp
qed

end
